theory Spec2Isabelle
  imports Complex_Main
begin

section \<open>Data model of the analysis engine\<close>

text \<open>
  The engine is the function \<open>analyzeLogs\<close> of \<open>lib/analyze\<close>, its caller is the worker
  (\<open>self.onmessage\<close>), and \<open>lib/validate.ts\<close> cleans the rows before they are analysed.

  Conventions of the embedding:
  \<^item> a JavaScript number that counts something is a \<open>nat\<close>, an integer setting is an \<open>int\<close>,
    a score or ratio is a \<open>real\<close> (exact arithmetic, not IEEE doubles);
  \<^item> a time value (milliseconds since the epoch) is an \<open>int\<close>; \<open>new Date(s).getTime()\<close> is
    the parameter \<open>dateParse\<close>, with \<open>None\<close> for \<open>NaN\<close>. The string produced by
    \<open>toISOString\<close> determines the time value and is represented by it; \<open>toISOString\<close>
    throws on a time value beyond \<open>8.64e15\<close> ms, the limit of a \<open>Date\<close>;
  \<^item> a \<open>Set\<close> is a duplicate-free list in insertion order, a \<open>Map\<close> or an object used as a
    dictionary is an association list in insertion order: the list holds the own
    properties of the object (integer-like keys, which JavaScript enumerates first, are
    not distinguished). The bucket table of the wave detector is read with \<open>!obj[key]\<close>,
    which also sees the members that every object inherits from \<open>Object.prototype\<close>; they
    are the names in \<open>objectPrototypeKeys\<close>;
  \<^item> a thrown exception is the \<open>Inl\<close> branch of a sum. Two limits of the host are left out:
    the number of arguments that \<open>Math.min(...allTimes)\<close> accepts, and the objects
    behind the inherited names (an event of the bucketing loop that reaches one of them
    changes that object, or fails on it with a \<open>TypeError\<close>, and leaves the table alone;
    the table is what the model follows).
\<close>

datatype error = RangeError string

record LogEntry =
  timestamp :: string
  actor :: string
  target :: string
  action :: string
  platform :: string
  actorCreatedAt :: "string option"

record AnalysisSettings =
  threshold :: real
  minClusterSize :: int
  timeBinMinutes :: int
  waveMinCount :: int
  waveMinActors :: int
  positiveActions :: "string list"
  churnActions :: "string list"

record DetailedCluster =
  clusterId :: nat
  members :: "string list"
  density :: real
  conductance :: real
  externalEdges :: nat

record WaveResult =
  windowStart :: int
  windowEnd :: int
  action :: string
  target :: string
  actors :: "string list"
  zScore :: real

text \<open>
  The numeric scorecard fields that \<open>analyzeLogs\<close> computes from its own statistics. The
  link, bio and handle fields are computed by the modules \<open>./profile\<close> and \<open>./scam\<close>, which
  are not among the sources, and are left out together with the list of reasons (formatted
  text about the other fields). Of the scores of those modules only \<open>profileAnomalyScore\<close>
  enters the composite score; it is the value that \<open>updateProfileAnomalyScore\<close> returns for
  the actor, taken from the parameter \<open>profileAnomaly\<close>.
\<close>

record ActorScorecard =
  actor :: string
  sybilScore :: real
  churnScore :: nat
  coordinationScore :: real
  noveltyScore :: real
  clusterIsolationScore :: real
  lowDiversityScore :: real
  profileAnomalyScore :: real
  reciprocalRate :: real
  burstRate :: real
  newAccountScore :: real

datatype ElementDefinition =
  NodeElement string string
  | EdgeElement string string string

record AnalysisResult =
  elements :: "ElementDefinition list"
  clusters :: "DetailedCluster list"
  waves :: "WaveResult list"
  scorecards :: "ActorScorecard list"

datatype stage = Start | Profiles | Graph | Clusters | Waves | Scorecards | Done

type_synonym AnalyzeProgress = "stage \<times> nat"

record Platform =
  dateParse :: "string \<Rightarrow> int option"
  dateNow :: int
  profileAnomaly :: "string \<Rightarrow> real"

section \<open>Sets and dictionaries\<close>

definition setAdd :: "'a \<Rightarrow> 'a list \<Rightarrow> 'a list" where
  \<comment> \<open>\<open>set.add(x)\<close>\<close>
  "setAdd x xs = (if x \<in> set xs then xs else xs @ [x])"

definition touch :: "'k \<Rightarrow> 'v \<Rightarrow> ('k \<times> 'v) list \<Rightarrow> ('k \<times> 'v) list" where
  \<comment> \<open>\<open>if (!m[k]) m[k] = d\<close>, for values that are objects\<close>
  "touch k d m = (if map_of m k = None then m @ [(k, d)] else m)"

definition modify :: "'k \<Rightarrow> ('v \<Rightarrow> 'v) \<Rightarrow> ('k \<times> 'v) list \<Rightarrow> ('k \<times> 'v) list" where
  \<comment> \<open>in-place change of the object stored under \<open>k\<close>\<close>
  "modify k f m = map (\<lambda>(k', v). if k' = k then (k', f v) else (k', v)) m"

definition getOr :: "'v \<Rightarrow> ('k \<times> 'v) list \<Rightarrow> 'k \<Rightarrow> 'v" where
  \<comment> \<open>\<open>m[k] || d\<close>, \<open>m.get(k) ?? d\<close>\<close>
  "getOr d m k = (case map_of m k of None \<Rightarrow> d | Some v \<Rightarrow> v)"

section \<open>Graph builder\<close>

record GraphState =
  nodes :: "string list"
  edges :: "(string \<times> string) list"
  positiveOut :: "(string \<times> string list) list"
  positiveIn :: "(string \<times> string list) list"

definition graphStep :: "AnalysisSettings \<Rightarrow> 'a LogEntry_scheme \<Rightarrow> GraphState \<Rightarrow> GraphState" where
  "graphStep st entry g =
     (let g1 = g\<lparr>nodes := setAdd (LogEntry.target entry) (setAdd (LogEntry.actor entry) (nodes g))\<rparr>
      in if LogEntry.action entry \<in> set (positiveActions st)
         then g1\<lparr>edges := edges g1 @ [(LogEntry.actor entry, LogEntry.target entry)],
                 positiveOut := modify (LogEntry.actor entry) (setAdd (LogEntry.target entry))
                                  (touch (LogEntry.actor entry) [] (positiveOut g1)),
                 positiveIn := modify (LogEntry.target entry) (setAdd (LogEntry.actor entry))
                                 (touch (LogEntry.target entry) [] (positiveIn g1))\<rparr>
         else g1)"

definition buildGraph :: "AnalysisSettings \<Rightarrow> 'a LogEntry_scheme list \<Rightarrow> GraphState" where
  "buildGraph st logs =
     fold (graphStep st) logs \<lparr>nodes = [], edges = [], positiveOut = [], positiveIn = []\<rparr>"

definition graphElements :: "GraphState \<Rightarrow> ElementDefinition list" where
  "graphElements g =
     map (\<lambda>n. NodeElement n n) (nodes g) @ map (\<lambda>(s, t). EdgeElement s t ''interaction'') (edges g)"

subsection \<open>Undirected adjacency\<close>

type_synonym adjacency = "(string \<times> string list) list"

definition neighbors :: "adjacency \<Rightarrow> string \<Rightarrow> string list" where
  \<comment> \<open>\<open>graph[node] || []\<close>\<close>
  "neighbors graph node = getOr [] graph node"

definition addEdge :: "string \<times> string \<Rightarrow> adjacency \<Rightarrow> adjacency" where
  \<comment> \<open>\<open>if (!s || !t) return; graph[s].push(t); graph[t].push(s)\<close>; both ends are keys of
      the adjacency, since every actor and target is a node\<close>
  "addEdge e graph =
     (case e of (s, t) \<Rightarrow>
        if s = [] \<or> t = [] then graph
        else modify t (\<lambda>ns. ns @ [s]) (modify s (\<lambda>ns. ns @ [t]) graph))"

definition buildAdjacency :: "string list \<Rightarrow> (string \<times> string) list \<Rightarrow> adjacency" where
  "buildAdjacency ns es = fold addEdge es (map (\<lambda>n. (n, [])) ns)"

section \<open>Cluster detector\<close>

text \<open>
  The stack of the traversal is a list whose head is the top: \<open>push\<close> is \<open>#\<close>, \<open>pop\<close> takes
  the head.
\<close>

fun visitNeighbors :: "string list \<Rightarrow> string list \<times> string list \<Rightarrow> string list \<times> string list" where
  "visitNeighbors [] (visited, stack) = (visited, stack)"
| "visitNeighbors (neighbor # rest) (visited, stack) =
     (if neighbor \<in> set visited then visitNeighbors rest (visited, stack)
      else visitNeighbors rest (setAdd neighbor visited, neighbor # stack))"

definition mentioned :: "adjacency \<Rightarrow> string set" where
  "mentioned graph = (\<Union>(k, ns) \<in> set graph. set ns)"

function dfsLoop :: "adjacency \<Rightarrow> string list \<Rightarrow> string list \<Rightarrow> string list \<Rightarrow> string list \<times> string list" where
  "dfsLoop graph [] visited component = (visited, component)"
| "dfsLoop graph (node # stack) visited component =
     (case visitNeighbors (neighbors graph node) (visited, stack) of
        (visited', stack') \<Rightarrow> dfsLoop graph stack' visited' (component @ [node]))"
  by pat_completeness auto
termination
proof (relation "measure (\<lambda>(graph, stack, visited, component).
                   2 * card (mentioned graph - set visited) + length stack)")
  show "wf (measure (\<lambda>(graph, stack, visited, component).
                   2 * card (mentioned graph - set visited) + length stack))"
    by simp
next
  fix graph :: adjacency and node stack visited component visited' stack'
  assume split: "(visited', stack') = visitNeighbors (neighbors graph node) (visited, stack)"
  have fin: "finite (mentioned graph)"
    by (auto simp: mentioned_def)
  have sub: "set (neighbors graph node) \<subseteq> mentioned graph"
  proof
    fix y
    assume "y \<in> set (neighbors graph node)"
    then obtain ns where "map_of graph node = Some ns" and y: "y \<in> set ns"
      by (cases "map_of graph node") (auto simp: neighbors_def getOr_def)
    then have "(node, ns) \<in> set graph"
      by (simp add: map_of_SomeD)
    with y show "y \<in> mentioned graph"
      by (auto simp: mentioned_def)
  qed
  have decr: "set ns \<subseteq> mentioned graph \<Longrightarrow>
      2 * card (mentioned graph - set (fst (visitNeighbors ns (v, s))))
        + length (snd (visitNeighbors ns (v, s)))
      \<le> 2 * card (mentioned graph - set v) + length s" for ns v s
  proof (induction ns arbitrary: v s)
    case Nil
    then show ?case by simp
  next
    case (Cons n ns)
    show ?case
    proof (cases "n \<in> set v")
      case True
      with Cons show ?thesis by simp
    next
      case False
      from Cons.prems have nin: "n \<in> mentioned graph - set v"
        using False by simp
      have "card (mentioned graph - set v) = Suc (card (mentioned graph - set v - {n}))"
        using nin fin by (metis card.remove finite_Diff)
      moreover have "mentioned graph - set (v @ [n]) = mentioned graph - set v - {n}"
        by auto
      moreover have "2 * card (mentioned graph - set (fst (visitNeighbors ns (v @ [n], n # s))))
          + length (snd (visitNeighbors ns (v @ [n], n # s)))
          \<le> 2 * card (mentioned graph - set (v @ [n])) + length (n # s)"
        using Cons.IH [of "v @ [n]" "n # s"] Cons.prems by simp
      ultimately show ?thesis
        using False by (simp add: setAdd_def)
    qed
  qed
  from split have "fst (visitNeighbors (neighbors graph node) (visited, stack)) = visited'"
    and "snd (visitNeighbors (neighbors graph node) (visited, stack)) = stack'"
    by (metis fst_conv, metis snd_conv)
  with decr [OF sub, of visited stack]
  show "((graph, stack', visited', component @ [node]), (graph, node # stack, visited, component))
        \<in> measure (\<lambda>(graph, stack, visited, component).
                   2 * card (mentioned graph - set visited) + length stack)"
    by simp
qed

definition dfs :: "adjacency \<Rightarrow> string \<Rightarrow> string list \<Rightarrow> string list \<times> string list" where
  \<comment> \<open>returns the visited set and the component\<close>
  "dfs graph start visited = dfsLoop graph [start] (setAdd start visited) []"

definition internalEdges :: "adjacency \<Rightarrow> string list \<Rightarrow> real" where
  "internalEdges graph component =
     real (sum_list (map (\<lambda>n. length (filter (\<lambda>neigh. neigh \<in> set component) (neighbors graph n)))
                         component)) / 2"

definition externalEdgeCount :: "adjacency \<Rightarrow> string list \<Rightarrow> nat" where
  "externalEdgeCount graph component =
     sum_list (map (\<lambda>n. length (filter (\<lambda>neigh. neigh \<notin> set component) (neighbors graph n)))
                   component)"

definition mkCluster :: "adjacency \<Rightarrow> nat \<Rightarrow> string list \<Rightarrow> DetailedCluster" where
  "mkCluster graph cid component =
     (let internal = internalEdges graph component;
          possibleEdges = real_of_int (int (length component) * (int (length component) - 1)) / 2;
          dens = (if possibleEdges > 0 then internal / possibleEdges else 0);
          external = externalEdgeCount graph component;
          totalEdges = internal + real external;
          cond = (if totalEdges > 0 then real external / totalEdges else 0)
      in \<lparr>clusterId = cid, members = component, density = dens, conductance = cond,
          externalEdges = external\<rparr>)"

type_synonym clusterState = "string list \<times> DetailedCluster list \<times> nat"

definition clusterStep :: "adjacency \<Rightarrow> AnalysisSettings \<Rightarrow> string \<Rightarrow> clusterState \<Rightarrow> clusterState" where
  \<comment> \<open>one round of \<open>for (const node of nodes)\<close>; the state is \<open>visited\<close>, \<open>clusters\<close>,
      \<open>clusterId\<close>\<close>
  "clusterStep graph st node s =
     (case s of (visited, cs, cid) \<Rightarrow>
        if node \<in> set visited then s
        else (case dfs graph node visited of
                (visited', component) \<Rightarrow>
                  if int (length component) < minClusterSize st then (visited', cs, cid)
                  else (visited', cs @ [mkCluster graph cid component], Suc cid)))"

definition findClusters :: "adjacency \<Rightarrow> AnalysisSettings \<Rightarrow> string list \<Rightarrow> DetailedCluster list" where
  "findClusters graph st ns = fst (snd (fold (clusterStep graph st) ns ([], [], 0)))"

section \<open>Temporal wave detector\<close>

type_synonym binInfo = "nat \<times> string list"

type_synonym timeBins = "(int \<times> (string \<times> (string \<times> binInfo) list) list) list"

definition binSizeMs :: "AnalysisSettings \<Rightarrow> int" where
  "binSizeMs st = max 1 (timeBinMinutes st) * 60 * 1000"

definition binOf :: "int \<Rightarrow> int \<Rightarrow> int" where
  \<comment> \<open>\<open>Math.floor(t / binSizeMs) * binSizeMs\<close>\<close>
  "binOf width t = (t div width) * width"

definition objectPrototypeKeys :: "string list" where
  \<comment> \<open>the property names of \<open>Object.prototype\<close>: every object literal \<open>{}\<close> answers them with
      a function or an object, so that \<open>!obj[key]\<close> is false for them\<close>
  "objectPrototypeKeys =
     [''constructor'', ''__defineGetter__'', ''__defineSetter__'', ''hasOwnProperty'',
      ''__lookupGetter__'', ''__lookupSetter__'', ''isPrototypeOf'', ''propertyIsEnumerable'',
      ''toString'', ''valueOf'', ''__proto__'', ''toLocaleString'']"

definition inherited :: "string \<Rightarrow> bool" where
  "inherited k = (k \<in> set objectPrototypeKeys)"

definition maxTime :: int where
  \<comment> \<open>the largest time value of a \<open>Date\<close>\<close>
  "maxTime = 8640000000000000"

definition toISOString :: "int \<Rightarrow> error + int" where
  \<comment> \<open>\<open>new Date(t).toISOString()\<close>: beyond the limit the date is invalid\<close>
  "toISOString t =
     (if - maxTime \<le> t \<and> t \<le> maxTime then Inr t else Inl (RangeError ''Invalid time value''))"

text \<open>
  The statements of the bucketing loop that follow the computation of \<open>binKey\<close>. A bucket
  key is the text of a date and never an inherited name. When the action is an inherited
  name, \<open>timeBins[binKey][log.action]\<close> is the inherited member: no entry is made for the
  action, and the count and the actor go to that member, not to the table. When the target
  is an inherited name, the entry of the action is made, \<open>[log.target]\<close> on it is the
  inherited member, and no entry is made for the target.
\<close>

definition binStep :: "int \<Rightarrow> 'a LogEntry_scheme \<Rightarrow> timeBins \<Rightarrow> timeBins" where
  "binStep binKey entry tb =
     modify binKey
       (\<lambda>byAction.
          if inherited (LogEntry.action entry) then byAction
          else
            modify (LogEntry.action entry)
              (\<lambda>byTarget.
                 if inherited (LogEntry.target entry) then byTarget
                 else
                   modify (LogEntry.target entry)
                     (\<lambda>(count, as). (Suc count, setAdd (LogEntry.actor entry) as))
                     (touch (LogEntry.target entry) (0, []) byTarget))
              (touch (LogEntry.action entry) [] byAction))
       (touch binKey [] tb)"

fun binLogs :: "(string \<Rightarrow> int option) \<Rightarrow> int \<Rightarrow> 'a LogEntry_scheme list \<Rightarrow> timeBins \<Rightarrow> error + timeBins" where
  "binLogs parse width [] tb = Inr tb"
| "binLogs parse width (entry # rest) tb =
     (case parse (timestamp entry) of
        None \<Rightarrow> Inl (RangeError ''Invalid time value'')
      | Some t \<Rightarrow>
          (case toISOString (binOf width t) of
             Inl e \<Rightarrow> Inl e
           | Inr binKey \<Rightarrow> binLogs parse width rest (binStep binKey entry tb)))"

definition isWave :: "AnalysisSettings \<Rightarrow> binInfo \<Rightarrow> bool" where
  \<comment> \<open>\<open>info.count >= settings.waveMinCount && info.actors.size >= settings.waveMinActors\<close>\<close>
  "isWave st info = (waveMinCount st \<le> int (fst info) \<and> waveMinActors st \<le> int (length (snd info)))"

definition mkWave :: "AnalysisSettings \<Rightarrow> int \<Rightarrow> string \<Rightarrow> string \<Rightarrow> binInfo \<Rightarrow> error + WaveResult" where
  \<comment> \<open>the object pushed for a group; \<open>windowEnd\<close> is rendered with \<open>toISOString\<close>\<close>
  "mkWave st time act tgt info =
     (case toISOString (time + binSizeMs st) of
        Inl e \<Rightarrow> Inl e
      | Inr endKey \<Rightarrow>
          Inr \<lparr>windowStart = time, windowEnd = endKey, action = act, target = tgt,
               actors = snd info, zScore = real (fst info) / real_of_int (max 1 (waveMinCount st))\<rparr>)"

fun pushAll :: "(error + 'a) list \<Rightarrow> error + 'a list" where
  \<comment> \<open>the pushes of a loop, in order, up to the first exception\<close>
  "pushAll [] = Inr []"
| "pushAll (Inl e # rest) = Inl e"
| "pushAll (Inr x # rest) = (case pushAll rest of Inl e \<Rightarrow> Inl e | Inr xs \<Rightarrow> Inr (x # xs))"

definition waveAttempts :: "AnalysisSettings \<Rightarrow> timeBins \<Rightarrow> (error + WaveResult) list" where
  \<comment> \<open>the three nested loops over the entries of the table: one wave object, or the
      exception of its construction, for every group that passes the thresholds\<close>
  "waveAttempts st tb =
     concat (map (\<lambda>(time, byAction).
       concat (map (\<lambda>(act, byTarget).
         concat (map (\<lambda>(tgt, info). if isWave st info then [mkWave st time act tgt info] else [])
                     byTarget))
                   byAction))
                 tb)"

definition emitWaves :: "AnalysisSettings \<Rightarrow> timeBins \<Rightarrow> error + WaveResult list" where
  "emitWaves st tb = pushAll (waveAttempts st tb)"

section \<open>Actor statistics\<close>

record ActorStats =
  actor :: string
  totalActions :: nat
  churnActions :: nat
  burstActions :: nat
  uniqueTargets :: "string list"
  connections :: nat
  clusterSize :: nat
  positiveOut :: nat
  positiveIn :: nat
  mutualPositive :: nat
  firstSeenMs :: "int option"

type_synonym statsTable = "(string \<times> ActorStats) list"

definition initStats :: "GraphState \<Rightarrow> adjacency \<Rightarrow> statsTable" where
  "initStats g graph =
     map (\<lambda>node. (node,
            \<lparr>actor = node, totalActions = 0, churnActions = 0, burstActions = 0,
             uniqueTargets = [], connections = length (neighbors graph node), clusterSize = 0,
             positiveOut = length (getOr [] (GraphState.positiveOut g) node),
             positiveIn = length (getOr [] (GraphState.positiveIn g) node),
             mutualPositive = 0, firstSeenMs = None\<rparr>))
         (nodes g)"

definition countStep :: "(string \<Rightarrow> int option) \<Rightarrow> AnalysisSettings \<Rightarrow> 'a LogEntry_scheme \<Rightarrow> statsTable \<Rightarrow> statsTable" where
  "countStep parse st entry table =
     modify (LogEntry.actor entry)
       (\<lambda>s. s\<lparr>totalActions := Suc (totalActions s),
              uniqueTargets := setAdd (LogEntry.target entry) (uniqueTargets s),
              ActorStats.churnActions :=
                (if LogEntry.action entry \<in> set (AnalysisSettings.churnActions st)
                 then Suc (ActorStats.churnActions s) else ActorStats.churnActions s),
              firstSeenMs :=
                (case parse (timestamp entry) of
                   None \<Rightarrow> firstSeenMs s
                 | Some ts \<Rightarrow> Some (case firstSeenMs s of None \<Rightarrow> ts | Some f \<Rightarrow> min f ts))\<rparr>)
       table"

definition assignClusterSizes :: "DetailedCluster list \<Rightarrow> statsTable \<Rightarrow> statsTable" where
  "assignClusterSizes cs table =
     fold (\<lambda>cluster. fold (\<lambda>member. modify member (\<lambda>s. s\<lparr>clusterSize := length (members cluster)\<rparr>))
                           (members cluster))
          cs table"

definition reciprocity :: "GraphState \<Rightarrow> statsTable \<Rightarrow> statsTable" where
  "reciprocity g table =
     fold (\<lambda>a. modify a (\<lambda>s. s\<lparr>mutualPositive :=
                                  length (filter (\<lambda>t. a \<in> set (getOr [] (GraphState.positiveOut g) t))
                                                 (getOr [] (GraphState.positiveOut g) a))\<rparr>))
          (nodes g) table"

text \<open>
  The wave key \<open>`${binKey}:${action}:${target}`\<close> is the pair of the bucket and the rest
  of the string: a rendered bucket is determined by its own text, the rest is not split.
\<close>

definition waveBinsByActor :: "AnalysisSettings \<Rightarrow> timeBins \<Rightarrow> (string \<times> (int \<times> string) list) list" where
  "waveBinsByActor st tb =
     fold (\<lambda>(binKey, byAction).
       fold (\<lambda>(act, byTarget).
         fold (\<lambda>(tgt, info).
           if isWave st info
           then fold (\<lambda>a wb. modify a (setAdd (binKey, act @ '':'' @ tgt)) (touch a [] wb)) (snd info)
           else id)
           byTarget)
         byAction)
       tb []"

definition assignBursts :: "(string \<times> (int \<times> string) list) list \<Rightarrow> statsTable \<Rightarrow> statsTable" where
  "assignBursts wb table = map (\<lambda>(a, s). (a, s\<lparr>burstActions := length (getOr [] wb a)\<rparr>)) table"

definition collectStats ::
  "Platform \<Rightarrow> AnalysisSettings \<Rightarrow> 'a LogEntry_scheme list \<Rightarrow> GraphState \<Rightarrow> adjacency \<Rightarrow>
   DetailedCluster list \<Rightarrow> timeBins \<Rightarrow> statsTable" where
  "collectStats pf st logs g graph cs tb =
     assignBursts (waveBinsByActor st tb)
       (reciprocity g
          (assignClusterSizes cs
             (fold (countStep (dateParse pf) st) logs (initStats g graph))))"

section \<open>Scoring engine\<close>

text \<open>Of the profile of an actor the engine itself reads \<open>actorCreatedAt\<close> only.\<close>

definition profileStep :: "'a LogEntry_scheme \<Rightarrow> (string \<times> string option) list \<Rightarrow> (string \<times> string option) list" where
  "profileStep entry ps =
     modify (LogEntry.actor entry)
       (\<lambda>p. case actorCreatedAt entry of None \<Rightarrow> p | Some c \<Rightarrow> if c = [] then p else Some c)
       (touch (LogEntry.actor entry) None ps)"

definition datasetStartMs :: "Platform \<Rightarrow> 'a LogEntry_scheme list \<Rightarrow> int" where
  "datasetStartMs pf logs =
     (let allTimes = List.map_filter (\<lambda>l. dateParse pf (timestamp l)) logs
      in if allTimes \<noteq> [] then Min (set allTimes) else dateNow pf)"

definition sybilComposite :: "real \<Rightarrow> nat \<Rightarrow> real \<Rightarrow> real \<Rightarrow> real \<Rightarrow> real \<Rightarrow> real" where
  \<comment> \<open>the expression assigned to \<open>sybilScore\<close>\<close>
  "sybilComposite coordination churn clusterIsolation newAccount lowDiversity anomaly =
     0.30 * coordination + 0.20 * min (real churn / 10) 1 + 0.15 * clusterIsolation
     + 0.10 * newAccount + 0.10 * lowDiversity + 0.15 * anomaly"

definition scoreActor :: "Platform \<Rightarrow> int \<Rightarrow> (string \<times> string option) list \<Rightarrow> ActorStats \<Rightarrow> ActorScorecard" where
  "scoreActor pf startMs profiles s =
     (let coordination =
            (if totalActions s > 0 then min (real (burstActions s) / real (totalActions s)) 1 else 0);
          churn = ActorStats.churnActions s;
          clusterIsolation =
            (if clusterSize s > 0 then 1 - real (connections s) / real (clusterSize s) else 0);
          createdAt = getOr None profiles (ActorStats.actor s);
          firstSeen = (case firstSeenMs s of None \<Rightarrow> startMs | Some f \<Rightarrow> f);
          ageDays =
            (case createdAt of
               None \<Rightarrow> None
             | Some c \<Rightarrow>
                 if c = [] then None
                 else (case dateParse pf c of
                         None \<Rightarrow> None
                       | Some createdMs \<Rightarrow>
                           if createdMs = 0 then None
                           else Some (real_of_int (firstSeen - createdMs) / (24 * 60 * 60 * 1000))));
          newAccount = (case ageDays of None \<Rightarrow> 0 | Some d \<Rightarrow> if 0 \<le> d \<and> d < 7 then 1 else 0);
          lowDiversity =
            (if totalActions s > 0 then 1 - real (length (uniqueTargets s)) / real (totalActions s)
             else 0);
          reciprocal =
            (if ActorStats.positiveOut s > 0
             then real (mutualPositive s) / real (ActorStats.positiveOut s) else 0);
          burst =
            (if totalActions s > 0 then min (real (burstActions s) / real (totalActions s)) 1 else 0);
          anomaly = profileAnomaly pf (ActorStats.actor s);
          sybil = sybilComposite coordination churn clusterIsolation newAccount lowDiversity anomaly
      in \<lparr>ActorScorecard.actor = ActorStats.actor s, sybilScore = sybil, churnScore = churn,
          coordinationScore = coordination, noveltyScore = newAccount,
          clusterIsolationScore = clusterIsolation, lowDiversityScore = lowDiversity,
          profileAnomalyScore = anomaly, reciprocalRate = reciprocal, burstRate = burst,
          newAccountScore = newAccount\<rparr>)"

section \<open>The engine\<close>

definition analyzeLogs :: "Platform \<Rightarrow> 'a LogEntry_scheme list \<Rightarrow> AnalysisSettings \<Rightarrow> error + AnalysisResult" where
  "analyzeLogs pf logs st =
     (if logs = [] then Inr \<lparr>elements = [], clusters = [], waves = [], scorecards = []\<rparr>
      else
        let startMs = datasetStartMs pf logs;
            profiles = fold profileStep logs [];
            g = buildGraph st logs;
            graph = buildAdjacency (nodes g) (edges g);
            cs = findClusters graph st (nodes g)
        in case binLogs (dateParse pf) (binSizeMs st) logs [] of
             Inl e \<Rightarrow> Inl e
           | Inr tb \<Rightarrow>
               (case emitWaves st tb of
                  Inl e \<Rightarrow> Inl e
                | Inr ws \<Rightarrow>
                    Inr \<lparr>elements = graphElements g, clusters = cs, waves = ws,
                         scorecards = map (\<lambda>(a, s). scoreActor pf startMs profiles s)
                                          (collectStats pf st logs g graph cs tb)\<rparr>))"

definition analyzeProgress :: "Platform \<Rightarrow> 'a LogEntry_scheme list \<Rightarrow> AnalysisSettings \<Rightarrow> AnalyzeProgress list" where
  \<comment> \<open>the reports made through \<open>onProgress\<close> until the function returns or throws\<close>
  "analyzeProgress pf logs st =
     (if logs = [] then [(Start, 0)]
      else case binLogs (dateParse pf) (binSizeMs st) logs [] of
             Inl e \<Rightarrow> [(Start, 0), (Profiles, 15), (Graph, 30), (Clusters, 45)]
           | Inr tb \<Rightarrow>
               (case emitWaves st tb of
                  Inl e \<Rightarrow> [(Start, 0), (Profiles, 15), (Graph, 30), (Clusters, 45)]
                | Inr ws \<Rightarrow> [(Start, 0), (Profiles, 15), (Graph, 30), (Clusters, 45), (Waves, 60),
                             (Scorecards, 90), (Done, 100)]))"

section \<open>The worker\<close>

datatype Incoming =
  Analyze string "LogEntry list" AnalysisSettings
  | Cancel string

datatype Outgoing =
  ProgressMessage string stage nat
  | ResultMessage string AnalysisResult
  | ErrorMessage string string

definition requestIdOf :: "Outgoing \<Rightarrow> string" where
  "requestIdOf m = (case m of ProgressMessage r _ _ \<Rightarrow> r | ResultMessage r _ \<Rightarrow> r | ErrorMessage r _ \<Rightarrow> r)"

definition post :: "string option \<Rightarrow> string \<Rightarrow> Outgoing \<Rightarrow> Outgoing list" where
  \<comment> \<open>\<open>if (activeRequestId !== msg.requestId) return; postMessage(m)\<close>\<close>
  "post active requestId m = (if active \<noteq> Some requestId then [] else [m])"

text \<open>
  The handler runs to completion: \<open>analyzeLogs\<close> is synchronous, so no other message is
  handled between its progress reports. The state is \<open>activeRequestId\<close>; the result is the
  new state and the messages posted.
\<close>

fun onmessage :: "Platform \<Rightarrow> string option \<Rightarrow> Incoming \<Rightarrow> string option \<times> Outgoing list" where
  "onmessage pf active (Cancel requestId) =
     (if active = Some requestId then (None, []) else (active, []))"
| "onmessage pf active (Analyze requestId logs st) =
     (let active' = Some requestId
      in (active',
          concat (map (\<lambda>(stg, pct). post active' requestId (ProgressMessage requestId stg pct))
                      (analyzeProgress pf logs st))
          @ (case analyzeLogs pf logs st of
               Inr result \<Rightarrow> post active' requestId (ResultMessage requestId result)
             | Inl (RangeError message) \<Rightarrow> post active' requestId (ErrorMessage requestId message))))"

fun worker :: "Platform \<Rightarrow> string option \<Rightarrow> Incoming list \<Rightarrow> string option \<times> Outgoing list" where
  "worker pf active [] = (active, [])"
| "worker pf active (m # ms) =
     (case onmessage pf active m of
        (active', out) \<Rightarrow> (case worker pf active' ms of (active'', outs) \<Rightarrow> (active'', out @ outs)))"

section \<open>Validation\<close>

definition isWhiteSpace :: "char \<Rightarrow> bool" where
  \<comment> \<open>the white space and line terminators of ECMAScript in the ASCII range\<close>
  "isWhiteSpace c = (of_char c \<in> {9, 10, 11, 12, 13, 32 :: nat})"

definition trim :: "string \<Rightarrow> string" where
  "trim s = rev (dropWhile isWhiteSpace (rev (dropWhile isWhiteSpace s)))"

fun showNat :: "nat \<Rightarrow> string" where
  "showNat n = (if n < 10 then [char_of (48 + n)] else showNat (n div 10) @ [char_of (48 + n mod 10)])"

datatype level = LevelError | LevelWarn

type_synonym ValidationIssue = "level \<times> string"

record ValidationStats =
  rows :: nat
  validRows :: nat
  droppedRows :: nat
  missingRequired :: nat
  invalidTimestamps :: nat
  emptyActors :: nat
  emptyTargets :: nat
  emptyActions :: nat
  emptyPlatforms :: nat

record ValidationReport =
  ok :: bool
  issues :: "ValidationIssue list"
  stats :: ValidationStats

definition bump :: "bool \<Rightarrow> nat \<Rightarrow> nat" where
  \<comment> \<open>\<open>if (c) n++\<close>\<close>
  "bump c n = (if c then Suc n else n)"

definition validateStep :: "(string \<Rightarrow> int option) \<Rightarrow> 'a LogEntry_scheme \<Rightarrow> ValidationStats \<Rightarrow> ValidationStats" where
  "validateStep parse row c =
     (let ts = trim (timestamp row);
          a = trim (LogEntry.actor row);
          t = trim (LogEntry.target row);
          act = trim (LogEntry.action row);
          p = trim (platform row);
          missing = (ts = [] \<or> a = [] \<or> t = [] \<or> act = [] \<or> p = []);
          ms = parse ts;
          isValid = (\<not> missing \<and> ms \<noteq> None)
      in c\<lparr>missingRequired := bump missing (missingRequired c),
            emptyActors := bump (a = []) (emptyActors c),
            emptyTargets := bump (t = []) (emptyTargets c),
            emptyActions := bump (act = []) (emptyActions c),
            emptyPlatforms := bump (p = []) (emptyPlatforms c),
            invalidTimestamps := bump (ms = None) (invalidTimestamps c),
            validRows := bump isValid (validRows c),
            droppedRows := bump (\<not> isValid) (droppedRows c)\<rparr>)"

definition validateLogs :: "(string \<Rightarrow> int option) \<Rightarrow> 'a LogEntry_scheme list \<Rightarrow> ValidationReport" where
  "validateLogs parse logs =
     (let c = fold (validateStep parse) logs
                \<lparr>rows = length logs, validRows = 0, droppedRows = 0, missingRequired = 0,
                 invalidTimestamps = 0, emptyActors = 0, emptyTargets = 0, emptyActions = 0,
                 emptyPlatforms = 0\<rparr>
      in \<lparr>ok = (length logs > 0 \<and> validRows c > 0),
          issues =
            (if logs = [] then [(LevelError, ''No rows loaded.'')] else [])
            @ (if missingRequired c > 0
               then [(LevelWarn, ''Missing required fields in '' @ showNat (missingRequired c)
                       @ '' row(s). Required: timestamp, platform, action, actor, target.'')]
               else [])
            @ (if invalidTimestamps c > 0
               then [(LevelWarn, ''Invalid timestamp in '' @ showNat (invalidTimestamps c)
                       @ '' row(s). Use ISO8601 like 2024-01-01T00:00:00Z.'')]
               else [])
            @ (if emptyActions c > 0 \<and> emptyActions c < length logs
               then [(LevelWarn, ''Empty action in '' @ showNat (emptyActions c) @ '' row(s).'')]
               else [])
            @ (if emptyPlatforms c > 0 \<and> emptyPlatforms c < length logs
               then [(LevelWarn, ''Empty platform in '' @ showNat (emptyPlatforms c) @ '' row(s).'')]
               else []),
          stats = c\<rparr>)"

fun validRowsOf :: "(string \<Rightarrow> int option) \<Rightarrow> 'a LogEntry_scheme list \<Rightarrow> 'a LogEntry_scheme list" where
  \<comment> \<open>the first loop of \<open>sanitizeLogs\<close>, which fills \<open>valid\<close>\<close>
  "validRowsOf parse [] = []"
| "validRowsOf parse (row # rest) =
     (let ts = trim (timestamp row);
          a = trim (LogEntry.actor row);
          t = trim (LogEntry.target row);
          act = trim (LogEntry.action row);
          p = trim (platform row);
          ms = parse ts
      in if ts = [] \<or> a = [] \<or> t = [] \<or> act = [] \<or> p = [] then validRowsOf parse rest
         else if ms = None then validRowsOf parse rest
         else row\<lparr>timestamp := ts, LogEntry.actor := a, LogEntry.target := t,
                  LogEntry.action := act, platform := p\<rparr> # validRowsOf parse rest)"

definition sanitizeLogs :: "(string \<Rightarrow> int option) \<Rightarrow> 'a LogEntry_scheme list \<Rightarrow> 'a LogEntry_scheme list \<times> ValidationReport" where
  "sanitizeLogs parse logs =
     (let valid = validRowsOf parse logs;
          report = validateLogs parse logs;
          report1 =
            (if droppedRows (stats report) > 0
             then report\<lparr>issues := issues report
                    @ [(LevelWarn, ''Dropped '' @ showNat (droppedRows (stats report))
                          @ '' invalid row(s) before analysis.'')]\<rparr>
             else report);
          report2 =
            (if valid = []
             then report1\<lparr>ok := False,
                         issues := [(LevelError, ''No valid rows to analyze after cleaning.'')]\<rparr>
             else report1)
      in (valid, report2))"

section \<open>Notions of the specification\<close>

text \<open>The events of the log that fall into one bucket with one action and one target.\<close>

definition groupOf ::
  "Platform \<Rightarrow> AnalysisSettings \<Rightarrow> 'a LogEntry_scheme list \<Rightarrow> int \<Rightarrow> string \<Rightarrow> string \<Rightarrow> 'a LogEntry_scheme list" where
  "groupOf pf st logs b a t =
     filter (\<lambda>l. map_option (binOf (binSizeMs st)) (dateParse pf (timestamp l)) = Some b
                 \<and> LogEntry.action l = a \<and> LogEntry.target l = t) logs"

text \<open>The entry of the bucket table for one bucket, action and target.\<close>

definition binInfoAt :: "timeBins \<Rightarrow> int \<Rightarrow> string \<Rightarrow> string \<Rightarrow> binInfo option" where
  "binInfoAt tb b a t =
     (case map_of tb b of
        None \<Rightarrow> None
      | Some byAction \<Rightarrow> (case map_of byAction a of None \<Rightarrow> None | Some byTarget \<Rightarrow> map_of byTarget t))"

text \<open>A bucket table is well keyed when no dictionary in it lists a key twice.\<close>

definition keyedTargets :: "(string \<times> binInfo) list \<Rightarrow> bool" where
  "keyedTargets byTarget = distinct (map fst byTarget)"

definition keyedActions :: "(string \<times> (string \<times> binInfo) list) list \<Rightarrow> bool" where
  "keyedActions byAction =
     (distinct (map fst byAction) \<and> (\<forall>(a, byTarget) \<in> set byAction. keyedTargets byTarget))"

definition wellKeyed :: "timeBins \<Rightarrow> bool" where
  "wellKeyed tb = (distinct (map fst tb) \<and> (\<forall>(b, byAction) \<in> set tb. keyedActions byAction))"

text \<open>The adjacency that \<open>analyzeLogs\<close> builds for a log, and its connected components.\<close>

definition adjacencyOf :: "AnalysisSettings \<Rightarrow> 'a LogEntry_scheme list \<Rightarrow> adjacency" where
  "adjacencyOf st logs = buildAdjacency (nodes (buildGraph st logs)) (edges (buildGraph st logs))"

definition adjacent :: "adjacency \<Rightarrow> (string \<times> string) set" where
  "adjacent graph = {(u, v). v \<in> set (neighbors graph u)}"

definition componentOf :: "adjacency \<Rightarrow> string \<Rightarrow> string set" where
  "componentOf graph u = {v. (u, v) \<in> (adjacent graph)\<^sup>*}"

text \<open>
  The state of the cluster loop after the nodes \<open>processed\<close>: the visited set is the union
  of their components, and the clusters are their components of sufficient size, each
  listed once.
\<close>

definition clustersCover :: "adjacency \<Rightarrow> AnalysisSettings \<Rightarrow> string list \<Rightarrow> clusterState \<Rightarrow> bool" where
  "clustersCover graph st processed s =
     (case s of (visited, cs, cid) \<Rightarrow>
        set visited = (\<Union>n \<in> set processed. componentOf graph n)
        \<and> (\<forall>c \<in> set cs. (\<exists>n \<in> set processed. set (members c) = componentOf graph n)
                          \<and> distinct (members c) \<and> minClusterSize st \<le> int (length (members c)))
        \<and> (\<forall>n \<in> set processed. minClusterSize st \<le> int (card (componentOf graph n))
              \<longrightarrow> (\<exists>c \<in> set cs. set (members c) = componentOf graph n))
        \<and> distinct (map (\<lambda>c. set (members c)) cs))"

text \<open>
  An entry of the statistics table for the key \<open>k\<close>, where \<open>A\<close> holds the actors of the
  events and \<open>M\<close> the members of the clusters: the entry is the one of \<open>k\<close>, it has counted
  no action unless \<open>k\<close> is an actor, and it has no cluster size unless \<open>k\<close> is a member.
\<close>

definition entryOf :: "string set \<Rightarrow> string set \<Rightarrow> string \<Rightarrow> ActorStats \<Rightarrow> bool" where
  "entryOf A M k s =
     (ActorStats.actor s = k \<and> (k \<notin> A \<longrightarrow> totalActions s = 0) \<and> (k \<notin> M \<longrightarrow> clusterSize s = 0))"

text \<open>
  The statistics table of a run, and what an entry of it has counted after the events
  \<open>seen\<close>: the events of its actor, those among them with a churn action, and their
  targets; the number of its connections is the length of its neighbor list.
\<close>

definition statsOf :: "Platform \<Rightarrow> AnalysisSettings \<Rightarrow> 'a LogEntry_scheme list \<Rightarrow> statsTable" where
  "statsOf pf st logs =
     (case binLogs (dateParse pf) (binSizeMs st) logs [] of
        Inl e \<Rightarrow> []
      | Inr tb \<Rightarrow>
          collectStats pf st logs (buildGraph st logs) (adjacencyOf st logs)
            (findClusters (adjacencyOf st logs) st (nodes (buildGraph st logs))) tb)"

definition countedOf ::
  "adjacency \<Rightarrow> AnalysisSettings \<Rightarrow> 'a LogEntry_scheme list \<Rightarrow> string \<Rightarrow> ActorStats \<Rightarrow> bool" where
  "countedOf graph st seen k s =
     (ActorStats.actor s = k
      \<and> connections s = length (neighbors graph k)
      \<and> totalActions s = length (filter (\<lambda>l. LogEntry.actor l = k) seen)
      \<and> ActorStats.churnActions s =
          length (filter (\<lambda>l. LogEntry.actor l = k
                             \<and> LogEntry.action l \<in> set (AnalysisSettings.churnActions st)) seen)
      \<and> distinct (uniqueTargets s)
      \<and> set (uniqueTargets s) = LogEntry.target ` {l \<in> set seen. LogEntry.actor l = k})"

section \<open>Sample inputs\<close>

definition sampleParse :: "string \<Rightarrow> int option" where
  \<comment> \<open>the time values of the two timestamps used below; any other string used below is
      not a date\<close>
  "sampleParse s =
     (if s = ''2024-01-01T00:00:00Z'' then Some 1704067200000
      else if s = ''2024-01-01T00:01:00Z'' then Some 1704067260000
      else None)"

definition samplePlatform :: Platform where
  "samplePlatform = \<lparr>dateParse = sampleParse, dateNow = 0, profileAnomaly = (\<lambda>a. 0)\<rparr>"

definition sampleSettings :: AnalysisSettings where
  "sampleSettings =
     \<lparr>threshold = 0.6, minClusterSize = 2, timeBinMinutes = 5, waveMinCount = 2,
      waveMinActors = 2, positiveActions = [''follow''], churnActions = [''unfollow'']\<rparr>"

definition event :: "string \<Rightarrow> string \<Rightarrow> string \<Rightarrow> string \<Rightarrow> LogEntry" where
  "event ts a act t =
     \<lparr>timestamp = ts, actor = a, target = t, action = act, platform = ''github'',
      actorCreatedAt = None\<rparr>"

definition mutualFollow :: "LogEntry list" where
  "mutualFollow =
     [event ''2024-01-01T00:00:00Z'' ''A'' ''follow'' ''B'',
      event ''2024-01-01T00:01:00Z'' ''B'' ''follow'' ''A'']"

definition repeatedFollow :: "LogEntry list" where
  "repeatedFollow =
     [event ''2024-01-01T00:00:00Z'' ''A'' ''follow'' ''B'',
      event ''2024-01-01T00:01:00Z'' ''A'' ''follow'' ''B'']"

definition sharedTarget :: "LogEntry list" where
  "sharedTarget =
     [event ''2024-01-01T00:00:00Z'' ''A'' ''follow'' ''T'',
      event ''2024-01-01T00:01:00Z'' ''B'' ''follow'' ''T'']"

definition badTimestamp :: "LogEntry list" where
  "badTimestamp =
     [event ''not-a-date'' ''A'' ''follow'' ''T'',
      event ''2024-01-01T00:01:00Z'' ''B'' ''follow'' ''T'']"

definition untidyRows :: "LogEntry list" where
  "untidyRows =
     [event ''  2024-01-01T00:00:00Z '' '' A'' ''follow'' ''T'',
      event ''not-a-date'' ''B'' ''follow'' ''T'',
      event ''2024-01-01T00:01:00Z'' ''B'' ''   '' ''T'']"

definition scoreA :: ActorScorecard where
  "scoreA =
     \<lparr>ActorScorecard.actor = ''A'', sybilScore = 2 / 5, churnScore = 0, coordinationScore = 1,
      noveltyScore = 0, clusterIsolationScore = 2 / 3, lowDiversityScore = 0,
      profileAnomalyScore = 0, reciprocalRate = 0, burstRate = 1, newAccountScore = 0\<rparr>"

definition scoreT :: ActorScorecard where
  "scoreT =
     \<lparr>ActorScorecard.actor = ''T'', sybilScore = 1 / 20, churnScore = 0, coordinationScore = 0,
      noveltyScore = 0, clusterIsolationScore = 1 / 3, lowDiversityScore = 0,
      profileAnomalyScore = 0, reciprocalRate = 0, burstRate = 0, newAccountScore = 0\<rparr>"

definition scoreB :: ActorScorecard where
  "scoreB =
     \<lparr>ActorScorecard.actor = ''B'', sybilScore = 2 / 5, churnScore = 0, coordinationScore = 1,
      noveltyScore = 0, clusterIsolationScore = 2 / 3, lowDiversityScore = 0,
      profileAnomalyScore = 0, reciprocalRate = 0, burstRate = 1, newAccountScore = 0\<rparr>"

definition sharedTargetResult :: AnalysisResult where
  \<comment> \<open>what \<open>analyzeLogs\<close> returns for \<open>sharedTarget\<close> under \<open>sampleSettings\<close>\<close>
  "sharedTargetResult =
     \<lparr>elements =
        [NodeElement ''A'' ''A'', NodeElement ''T'' ''T'', NodeElement ''B'' ''B'',
         EdgeElement ''A'' ''T'' ''interaction'', EdgeElement ''B'' ''T'' ''interaction''],
      clusters =
        [\<lparr>clusterId = 0, members = [''A'', ''T'', ''B''], density = 2 / 3, conductance = 0,
          externalEdges = 0\<rparr>],
      waves =
        [\<lparr>windowStart = 1704067200000, windowEnd = 1704067500000, action = ''follow'',
          target = ''T'', actors = [''A'', ''B''], zScore = 1\<rparr>],
      scorecards = [scoreA, scoreT, scoreB]\<rparr>"

definition largeClusterSettings :: AnalysisSettings where
  "largeClusterSettings = sampleSettings\<lparr>minClusterSize := 4\<rparr>"

definition unclusteredT :: ActorScorecard where
  "unclusteredT =
     \<lparr>ActorScorecard.actor = ''T'', sybilScore = 0, churnScore = 0, coordinationScore = 0,
      noveltyScore = 0, clusterIsolationScore = 0, lowDiversityScore = 0,
      profileAnomalyScore = 0, reciprocalRate = 0, burstRate = 0, newAccountScore = 0\<rparr>"

definition unclusteredResult :: AnalysisResult where
  \<comment> \<open>what \<open>analyzeLogs\<close> returns for \<open>sharedTarget\<close> under \<open>largeClusterSettings\<close>\<close>
  "unclusteredResult =
     \<lparr>elements =
        [NodeElement ''A'' ''A'', NodeElement ''T'' ''T'', NodeElement ''B'' ''B'',
         EdgeElement ''A'' ''T'' ''interaction'', EdgeElement ''B'' ''T'' ''interaction''],
      clusters = [],
      waves =
        [\<lparr>windowStart = 1704067200000, windowEnd = 1704067500000, action = ''follow'',
          target = ''T'', actors = [''A'', ''B''], zScore = 1\<rparr>],
      scorecards =
        [scoreA\<lparr>sybilScore := 3 / 10, clusterIsolationScore := 0\<rparr>, unclusteredT,
         scoreB\<lparr>sybilScore := 3 / 10, clusterIsolationScore := 0\<rparr>]\<rparr>"

text \<open>
  Two accounts perform an action named \<open>constructor\<close> on one target within a minute, and a
  log with a third event at the last instant that a \<open>Date\<close> can hold.
\<close>

definition inheritedAction :: "LogEntry list" where
  "inheritedAction =
     [event ''2024-01-01T00:00:00Z'' ''A'' ''constructor'' ''T'',
      event ''2024-01-01T00:01:00Z'' ''B'' ''constructor'' ''T'']"

definition farParse :: "string \<Rightarrow> int option" where
  "farParse s =
     (if s = ''+275760-09-13T00:00:00.000Z'' then Some 8640000000000000 else sampleParse s)"

definition farPlatform :: Platform where
  "farPlatform = \<lparr>dateParse = farParse, dateNow = 0, profileAnomaly = (\<lambda>a. 0)\<rparr>"

definition lastInstant :: "LogEntry list" where
  "lastInstant =
     [event ''2024-01-01T00:00:00Z'' ''A'' ''follow'' ''T'',
      event ''2024-01-01T00:01:00Z'' ''B'' ''follow'' ''T'',
      event ''+275760-09-13T00:00:00.000Z'' ''C'' ''follow'' ''T'']"

text \<open>
  One account undoes eleven follows within a minute, nine of them of the same target.
\<close>

definition churner :: "LogEntry list" where
  "churner =
     replicate 9 (event ''2024-01-01T00:00:00Z'' ''A'' ''unfollow'' ''T'')
     @ [event ''2024-01-01T00:00:00Z'' ''A'' ''unfollow'' ''U'',
        event ''2024-01-01T00:01:00Z'' ''A'' ''unfollow'' ''V'']"

definition scoreChurner :: ActorScorecard where
  "scoreChurner =
     \<lparr>ActorScorecard.actor = ''A'', sybilScore = 3 / 11, churnScore = 11, coordinationScore = 0,
      noveltyScore = 0, clusterIsolationScore = 0, lowDiversityScore = 8 / 11,
      profileAnomalyScore = 0, reciprocalRate = 0, burstRate = 0, newAccountScore = 0\<rparr>"

definition scoreIdle :: "string \<Rightarrow> ActorScorecard" where
  "scoreIdle a =
     \<lparr>ActorScorecard.actor = a, sybilScore = 0, churnScore = 0, coordinationScore = 0,
      noveltyScore = 0, clusterIsolationScore = 0, lowDiversityScore = 0,
      profileAnomalyScore = 0, reciprocalRate = 0, burstRate = 0, newAccountScore = 0\<rparr>"

definition churnerResult :: AnalysisResult where
  "churnerResult =
     \<lparr>elements = [NodeElement ''A'' ''A'', NodeElement ''T'' ''T'', NodeElement ''U'' ''U'',
                  NodeElement ''V'' ''V''],
      clusters = [], waves = [],
      scorecards = [scoreChurner, scoreIdle ''T'', scoreIdle ''U'', scoreIdle ''V'']\<rparr>"

section \<open>Properties of sets and dictionaries\<close>

lemma set_setAdd: "set (setAdd x xs) = insert x (set xs)"
  by (auto simp: setAdd_def)

lemma distinct_setAdd: "distinct xs \<Longrightarrow> distinct (setAdd x xs)"
  by (simp add: setAdd_def)

lemma map_of_touch:
  "map_of (touch k d m) k' = (if k' = k \<and> map_of m k = None then Some d else map_of m k')"
  by (auto simp: touch_def map_add_def split: option.splits)

lemma map_of_modify:
  "map_of (modify k f m) k' = (if k' = k then map_option f (map_of m k) else map_of m k')"
  by (induction m) (auto simp: modify_def)

lemma keys_modify: "map fst (modify k f m) = map fst m"
  by (induction m) (auto simp: modify_def)

lemma keys_touch:
  "map fst (touch k d m) = (if k \<in> fst ` set m then map fst m else map fst m @ [k])"
  by (auto simp: touch_def map_of_eq_None_iff)

lemma distinct_keys_touch: "distinct (map fst m) \<Longrightarrow> distinct (map fst (touch k d m))"
  by (simp add: keys_touch)

lemma getOr_modify:
  "getOr d (modify k f m) k' =
     (if k' = k \<and> k \<in> fst ` set m then f (getOr d m k) else getOr d m k')"
proof (cases "map_of m k")
  case None
  then have "k \<notin> fst ` set m"
    by (simp add: map_of_eq_None_iff)
  with None show ?thesis
    by (auto simp: getOr_def map_of_modify split: option.splits)
next
  case (Some v)
  then have "k \<in> fst ` set m"
    by (metis map_of_eq_None_iff option.distinct(1))
  with Some show ?thesis
    by (auto simp: getOr_def map_of_modify split: option.splits)
qed

lemma getOr_touch:
  "getOr d (touch k d m) k' = getOr d m k'"
  by (auto simp: getOr_def map_of_touch split: option.splits)

lemma getOr_absent: "k \<notin> fst ` set m \<Longrightarrow> getOr d m k = d"
  by (simp add: getOr_def map_of_eq_None_iff [THEN iffD2])

section \<open>Properties of the graph builder\<close>

lemma nodes_graphStep:
  "nodes (graphStep st e g) = setAdd (LogEntry.target e) (setAdd (LogEntry.actor e) (nodes g))"
  by (simp add: graphStep_def Let_def)

lemma edges_graphStep:
  "edges (graphStep st e g) =
     edges g @ (if LogEntry.action e \<in> set (positiveActions st) then [(LogEntry.actor e, LogEntry.target e)] else [])"
  by (simp add: graphStep_def Let_def)

lemma nodes_fold_graphStep:
  "set (nodes (fold (graphStep st) logs g)) = set (nodes g) \<union> LogEntry.actor ` set logs \<union> LogEntry.target ` set logs"
  by (induction logs arbitrary: g) (auto simp: nodes_graphStep set_setAdd)

lemma distinct_nodes_fold_graphStep:
  "distinct (nodes g) \<Longrightarrow> distinct (nodes (fold (graphStep st) logs g))"
  by (induction logs arbitrary: g) (auto simp: nodes_graphStep distinct_setAdd)

lemma edges_fold_graphStep:
  "edges (fold (graphStep st) logs g) =
     edges g @ map (\<lambda>l. (LogEntry.actor l, LogEntry.target l))
                   (filter (\<lambda>l. LogEntry.action l \<in> set (positiveActions st)) logs)"
  by (induction logs arbitrary: g) (auto simp: edges_graphStep)

lemma set_nodes_buildGraph:
  "set (nodes (buildGraph st logs)) = LogEntry.actor ` set logs \<union> LogEntry.target ` set logs"
  by (simp add: buildGraph_def nodes_fold_graphStep)

lemma distinct_nodes_buildGraph: "distinct (nodes (buildGraph st logs))"
  by (simp add: buildGraph_def distinct_nodes_fold_graphStep)

lemma edges_buildGraph:
  "edges (buildGraph st logs) =
     map (\<lambda>l. (LogEntry.actor l, LogEntry.target l))
         (filter (\<lambda>l. LogEntry.action l \<in> set (positiveActions st)) logs)"
  by (simp add: buildGraph_def edges_fold_graphStep)

subsection \<open>The adjacency keeps one entry per event\<close>

lemma keys_addEdge: "map fst (addEdge e graph) = map fst graph"
  by (cases e) (simp add: addEdge_def keys_modify)

lemma keys_fold_addEdge: "map fst (fold addEdge es graph) = map fst graph"
  by (induction es arbitrary: graph) (simp_all add: keys_addEdge)

lemma keys_buildAdjacency: "map fst (buildAdjacency ns es) = ns"
  by (simp add: buildAdjacency_def keys_fold_addEdge comp_def)

lemma neighbors_addEdge:
  "neighbors (addEdge (s, t) graph) u =
     (if s = [] \<or> t = [] \<or> u \<notin> fst ` set graph then neighbors graph u
      else neighbors graph u @ (if u = s then [t] else []) @ (if u = t then [s] else []))"
  by (auto simp: addEdge_def neighbors_def getOr_modify keys_modify [THEN arg_cong, of set, simplified] image_iff)


lemma keys_set_addEdge: "fst ` set (addEdge e graph) = fst ` set graph"
  using keys_addEdge [of e graph, THEN arg_cong, of set] by simp

lemma count_neighbors_addEdge:
  "count_list (neighbors (addEdge (s, t) graph) u) v =
     count_list (neighbors graph u) v
     + (if u \<in> fst ` set graph \<and> s \<noteq> [] \<and> t \<noteq> []
        then (if u = s \<and> v = t then 1 else 0) + (if u = t \<and> v = s then 1 else 0) else 0)"
  apply (simp only: neighbors_addEdge)
  apply (simp only: split: if_splits)
  apply (intro conjI impI)
  apply simp_all
  done


lemma length_filter_Cons:
  "length (filter P (x # xs)) = length (filter P [x]) + length (filter P xs)"
  by simp

lemma edge_step:
  "(if u \<in> K \<and> s \<noteq> [] \<and> t \<noteq> []
    then (if u = s \<and> v = t then 1 else 0) + (if u = t \<and> v = s then 1 else 0) else 0) =
   (if u \<in> K
    then length (filter (\<lambda>(s, t). s \<noteq> [] \<and> t \<noteq> [] \<and> s = u \<and> t = v) [(s, t)])
         + length (filter (\<lambda>(s, t). s \<noteq> [] \<and> t \<noteq> [] \<and> s = v \<and> t = u) [(s, t)])
    else (0::nat))"
  by (cases "u \<in> K"; cases "s = []"; cases "t = []";
      cases "u = s"; cases "v = t"; cases "u = t"; cases "v = s"; simp)

lemma count_neighbors_fold_addEdge:
  "count_list (neighbors (fold addEdge es graph) u) v =
     count_list (neighbors graph u) v
     + (if u \<in> fst ` set graph
        then length (filter (\<lambda>(s, t). s \<noteq> [] \<and> t \<noteq> [] \<and> s = u \<and> t = v) es)
             + length (filter (\<lambda>(s, t). s \<noteq> [] \<and> t \<noteq> [] \<and> s = v \<and> t = u) es)
        else 0)"
proof (induction es arbitrary: graph)
  case Nil
  then show ?case by simp
next
  case (Cons e es)
  show ?case
  proof (cases e)
    case (Pair s t)
    define a1 where "a1 = length (filter (\<lambda>(s, t). s \<noteq> [] \<and> t \<noteq> [] \<and> s = u \<and> t = v) [(s, t)])"
    define b1 where "b1 = length (filter (\<lambda>(s, t). s \<noteq> [] \<and> t \<noteq> [] \<and> s = v \<and> t = u) [(s, t)])"
    define a2 where "a2 = length (filter (\<lambda>(s, t). s \<noteq> [] \<and> t \<noteq> [] \<and> s = u \<and> t = v) es)"
    define b2 where "b2 = length (filter (\<lambda>(s, t). s \<noteq> [] \<and> t \<noteq> [] \<and> s = v \<and> t = u) es)"
    define c0 where "c0 = count_list (neighbors graph u) v"
    have "count_list (neighbors (fold addEdge (e # es) graph) u) v =
            count_list (neighbors (fold addEdge es (addEdge (s, t) graph)) u) v"
      by (simp add: Pair)
    also have "\<dots> = count_list (neighbors (addEdge (s, t) graph) u) v
          + (if u \<in> fst ` set graph then a2 + b2 else 0)"
      unfolding a2_def b2_def by (subst Cons.IH, subst keys_set_addEdge, rule refl)
    also have "count_list (neighbors (addEdge (s, t) graph) u) v =
          c0 + (if u \<in> fst ` set graph then a1 + b1 else 0)"
      unfolding a1_def b1_def c0_def count_neighbors_addEdge edge_step by (rule refl)
    finally have lhs: "count_list (neighbors (fold addEdge (e # es) graph) u) v =
        c0 + (if u \<in> fst ` set graph then a1 + b1 else 0)
           + (if u \<in> fst ` set graph then a2 + b2 else 0)" .
    have ra: "length (filter (\<lambda>(s, t). s \<noteq> [] \<and> t \<noteq> [] \<and> s = u \<and> t = v) (e # es)) = a1 + a2"
      unfolding Pair a1_def a2_def by (rule length_filter_Cons)
    have rb: "length (filter (\<lambda>(s, t). s \<noteq> [] \<and> t \<noteq> [] \<and> s = v \<and> t = u) (e # es)) = b1 + b2"
      unfolding Pair b1_def b2_def by (rule length_filter_Cons)
    show ?thesis
      unfolding lhs ra rb c0_def [symmetric] by (cases "u \<in> fst ` set graph") simp_all
  qed
qed

lemma neighbors_empty_graph: "neighbors (map (\<lambda>n. (n, [])) ns) u = []"
  by (induction ns) (auto simp: neighbors_def getOr_def)

lemma count_neighbors_buildAdjacency:
  "count_list (neighbors (buildAdjacency ns es) u) v =
     (if u \<in> set ns
      then length (filter (\<lambda>(s, t). s \<noteq> [] \<and> t \<noteq> [] \<and> s = u \<and> t = v) es)
           + length (filter (\<lambda>(s, t). s \<noteq> [] \<and> t \<noteq> [] \<and> s = v \<and> t = u) es)
      else 0)"
  unfolding buildAdjacency_def count_neighbors_fold_addEdge neighbors_empty_graph
  by (simp add: image_image)


lemma count_neighbors_adjacencyOf:
  "count_list (neighbors (adjacencyOf st logs) u) v =
     (if u \<in> set (nodes (buildGraph st logs))
      then length (filter (\<lambda>l. LogEntry.action l \<in> set (positiveActions st)
                        \<and> LogEntry.actor l \<noteq> [] \<and> LogEntry.target l \<noteq> []
                        \<and> LogEntry.actor l = u \<and> LogEntry.target l = v) logs)
         + length (filter (\<lambda>l. LogEntry.action l \<in> set (positiveActions st)
                          \<and> LogEntry.actor l \<noteq> [] \<and> LogEntry.target l \<noteq> []
                          \<and> LogEntry.actor l = v \<and> LogEntry.target l = u) logs)
      else 0)"
  unfolding adjacencyOf_def count_neighbors_buildAdjacency edges_buildGraph
  by (simp only: filter_map length_map filter_filter comp_def case_prod_conv)

text \<open>
  Claim C3, as amended. The adjacency does not collapse repeated events: for all nodes
  \<open>u\<close> and \<open>v\<close>, the number of entries \<open>v\<close> in the neighbor list of \<open>u\<close> is the number of
  positive events from \<open>u\<close> to \<open>v\<close> plus the number of positive events from \<open>v\<close> to \<open>u\<close>
  (events with an empty actor or target add no entry).
\<close>

theorem adjacency_counts_events:
  "count_list (neighbors (adjacencyOf st logs) u) v =
     length (filter (\<lambda>l. LogEntry.action l \<in> set (positiveActions st)
                        \<and> LogEntry.actor l \<noteq> [] \<and> LogEntry.target l \<noteq> []
                        \<and> LogEntry.actor l = u \<and> LogEntry.target l = v) logs)
     + length (filter (\<lambda>l. LogEntry.action l \<in> set (positiveActions st)
                          \<and> LogEntry.actor l \<noteq> [] \<and> LogEntry.target l \<noteq> []
                          \<and> LogEntry.actor l = v \<and> LogEntry.target l = u) logs)"
proof (cases "u \<in> set (nodes (buildGraph st logs))")
  case True
  then show ?thesis
    by (simp only: count_neighbors_adjacencyOf if_True)
next
  case False
  then have no: "\<And>l. l \<in> set logs \<Longrightarrow> LogEntry.actor l \<noteq> u \<and> LogEntry.target l \<noteq> u"
    unfolding set_nodes_buildGraph by blast
  have "filter (\<lambda>l. LogEntry.action l \<in> set (positiveActions st)
                        \<and> LogEntry.actor l \<noteq> [] \<and> LogEntry.target l \<noteq> []
                        \<and> LogEntry.actor l = u \<and> LogEntry.target l = v) logs = []"
    unfolding filter_empty_conv using no by blast
  moreover have "filter (\<lambda>l. LogEntry.action l \<in> set (positiveActions st)
                          \<and> LogEntry.actor l \<noteq> [] \<and> LogEntry.target l \<noteq> []
                          \<and> LogEntry.actor l = v \<and> LogEntry.target l = u) logs = []"
    unfolding filter_empty_conv using no by blast
  ultimately show ?thesis
    using False by (simp only: count_neighbors_adjacencyOf if_False list.size add_0)
qed

text \<open>
  Claim C3, as stated, fails: after two \<open>follow\<close> events from \<open>A\<close> to \<open>B\<close> the neighbor
  list of \<open>A\<close> holds \<open>B\<close> twice.
\<close>

theorem repeated_follow_listed_twice:
  "neighbors (adjacencyOf sampleSettings repeatedFollow) ''A'' = [''B'', ''B'']"
  by code_simp

section \<open>An unparsable timestamp\<close>

lemma binLogs_unparsable:
  "l \<in> set logs \<Longrightarrow> parse (timestamp l) = None \<Longrightarrow>
   binLogs parse width logs tb = Inl (RangeError ''Invalid time value'')"
proof (induction logs arbitrary: tb)
  case Nil
  then show ?case by simp
next
  case (Cons e logs)
  show ?case
  proof (cases "parse (timestamp e)")
    case None
    then show ?thesis by simp
  next
    case (Some t)
    with Cons.prems have "l \<in> set logs" by auto
    with Cons.IH Cons.prems(2) Some show ?thesis
      by (simp add: toISOString_def)
  qed
qed

lemma binLogs_returns:
  "binLogs parse width logs tb = Inr tb' \<Longrightarrow>
   (\<forall>l \<in> set logs. parse (timestamp l) \<noteq> None)
   \<and> tb' = fold (\<lambda>l. binStep (binOf width (the (parse (timestamp l)))) l) logs tb"
proof (induction logs arbitrary: tb)
  case Nil
  then show ?case by simp
next
  case (Cons e logs)
  from Cons.prems obtain t where t: "parse (timestamp e) = Some t"
    by (cases "parse (timestamp e)") simp_all
  from Cons.prems t have key: "toISOString (binOf width t) = Inr (binOf width t)"
    by (auto simp: toISOString_def split: if_splits)
  from Cons.prems t key have "binLogs parse width logs (binStep (binOf width t) e tb) = Inr tb'"
    by simp
  from Cons.IH [OF this] t show ?case by simp
qed

text \<open>
  Claim C1 is not what the code does. The bucketing loop renders the bucket of every event
  with \<open>toISOString\<close>, which throws \<open>RangeError\<close> on an invalid date: whenever some event of
  a log has an unparsable timestamp, \<open>analyzeLogs\<close> fails and returns no result at all.
\<close>

theorem analyzeLogs_unparsable_timestamp_throws:
  assumes "l \<in> set logs" and "dateParse pf (timestamp l) = None"
  shows "analyzeLogs pf logs st = Inl (RangeError ''Invalid time value'')"
proof -
  from assms(1) have "logs \<noteq> []" by auto
  moreover have "binLogs (dateParse pf) (binSizeMs st) logs [] = Inl (RangeError ''Invalid time value'')"
    using assms by (rule binLogs_unparsable)
  ultimately show ?thesis
    by (simp add: analyzeLogs_def Let_def)
qed

theorem analyzeLogs_unparsable_timestamp_throws_witness:
  "analyzeLogs samplePlatform badTimestamp sampleSettings = Inl (RangeError ''Invalid time value'')"
  by (rule analyzeLogs_unparsable_timestamp_throws [where l = "event ''not-a-date'' ''A'' ''follow'' ''T''"])
     (simp_all add: badTimestamp_def samplePlatform_def sampleParse_def event_def)

section \<open>Density of a cluster\<close>

text \<open>
  Claim C2 fails on the code for the density. Two accounts that follow each other form a
  cluster of two members; its adjacency lists hold two entries each, so that
  \<open>internalEdges = 2\<close>, \<open>possibleEdges = 1\<close> and the density is 2. (The conductance of a
  returned cluster is always 0, see \<open>cluster_metrics\<close> below.)
\<close>

theorem mutual_follow_density_is_two:
  "analyzeLogs samplePlatform mutualFollow sampleSettings =
     Inr \<lparr>elements =
            [NodeElement ''A'' ''A'', NodeElement ''B'' ''B'',
             EdgeElement ''A'' ''B'' ''interaction'', EdgeElement ''B'' ''A'' ''interaction''],
          clusters =
            [\<lparr>clusterId = 0, members = [''A'', ''B''], density = 2, conductance = 0,
              externalEdges = 0\<rparr>],
          waves = [],
          scorecards =
            [\<lparr>ActorScorecard.actor = ''A'', sybilScore = 0, churnScore = 0,
              coordinationScore = 0, noveltyScore = 0, clusterIsolationScore = 0,
              lowDiversityScore = 0, profileAnomalyScore = 0, reciprocalRate = 1,
              burstRate = 0, newAccountScore = 0\<rparr>,
             \<lparr>ActorScorecard.actor = ''B'', sybilScore = 0, churnScore = 0,
              coordinationScore = 0, noveltyScore = 0, clusterIsolationScore = 0,
              lowDiversityScore = 0, profileAnomalyScore = 0, reciprocalRate = 1,
              burstRate = 0, newAccountScore = 0\<rparr>]\<rparr>"
  by code_simp

section \<open>Runs of the engine\<close>

lemma analyzeLogs_empty:
  "analyzeLogs pf [] st = Inr \<lparr>elements = [], clusters = [], waves = [], scorecards = []\<rparr>"
  by (simp add: analyzeLogs_def)

lemma analyzeLogs_nonempty:
  "logs \<noteq> [] \<Longrightarrow>
   analyzeLogs pf logs st =
     (case binLogs (dateParse pf) (binSizeMs st) logs [] of
        Inl e \<Rightarrow> Inl e
      | Inr tb \<Rightarrow>
          (case emitWaves st tb of
             Inl e \<Rightarrow> Inl e
           | Inr ws \<Rightarrow>
               Inr \<lparr>elements = graphElements (buildGraph st logs),
                    clusters = findClusters (adjacencyOf st logs) st (nodes (buildGraph st logs)),
                    waves = ws,
                    scorecards =
                      map (\<lambda>(a, s). scoreActor pf (datasetStartMs pf logs) (fold profileStep logs []) s)
                          (collectStats pf st logs (buildGraph st logs) (adjacencyOf st logs)
                             (findClusters (adjacencyOf st logs) st (nodes (buildGraph st logs))) tb)\<rparr>))"
  unfolding analyzeLogs_def adjacencyOf_def Let_def by simp

lemma scorecards_analyzeLogs:
  assumes "analyzeLogs pf logs st = Inr res" and "sc \<in> set (scorecards res)"
  shows "\<exists>startMs profiles s. sc = scoreActor pf startMs profiles s"
proof (cases "logs = []")
  case True
  with assms show ?thesis by (auto simp: analyzeLogs_empty)
next
  case False
  with assms show ?thesis
    by (fastforce simp: analyzeLogs_nonempty split: sum.splits)
qed

lemma sybilScore_scoreActor:
  "sybilScore (scoreActor pf startMs profiles s) =
     sybilComposite (coordinationScore (scoreActor pf startMs profiles s))
       (churnScore (scoreActor pf startMs profiles s))
       (clusterIsolationScore (scoreActor pf startMs profiles s))
       (newAccountScore (scoreActor pf startMs profiles s))
       (lowDiversityScore (scoreActor pf startMs profiles s))
       (profileAnomalyScore (scoreActor pf startMs profiles s))"
  by (simp add: scoreActor_def Let_def)

lemma sybilComposite_bounds:
  assumes "0 \<le> c" "c \<le> 1" "0 \<le> i" "i \<le> 1" "0 \<le> a" "a \<le> 1" "0 \<le> d" "d \<le> 1" "0 \<le> p" "p \<le> 1"
  shows "0 \<le> sybilComposite c n i a d p" and "sybilComposite c n i a d p \<le> 1"
proof -
  have m0: "0 \<le> min (real n / 10) 1" by simp
  have m1: "min (real n / 10) 1 \<le> 1" by simp
  show "0 \<le> sybilComposite c n i a d p"
    unfolding sybilComposite_def using assms m0 by simp
  show "sybilComposite c n i a d p \<le> 1"
    unfolding sybilComposite_def using assms m1 by simp
qed

lemma sharedTarget_result:
  "analyzeLogs samplePlatform sharedTarget sampleSettings = Inr sharedTargetResult"
  by code_simp

section \<open>Cancellation in the worker\<close>

lemma onmessage_posts:
  "m \<in> set (snd (onmessage pf active msg)) \<Longrightarrow> \<exists>logs st. msg = Analyze (requestIdOf m) logs st"
  by (cases msg)
     (auto simp: post_def requestIdOf_def Let_def split: sum.splits error.splits if_splits)

lemma worker_posts:
  "m \<in> set (snd (worker pf active msgs)) \<Longrightarrow> \<exists>logs st. Analyze (requestIdOf m) logs st \<in> set msgs"
proof (induction msgs arbitrary: active)
  case Nil
  then show ?case by simp
next
  case (Cons msg msgs)
  obtain active' out where step: "onmessage pf active msg = (active', out)"
    by (cases "onmessage pf active msg")
  obtain active'' outs where run: "worker pf active' msgs = (active'', outs)"
    by (cases "worker pf active' msgs")
  from Cons.prems step run have "m \<in> set out \<or> m \<in> set outs"
    by auto
  then show ?case
  proof
    assume "m \<in> set out"
    with step have "m \<in> set (snd (onmessage pf active msg))" by simp
    from onmessage_posts [OF this] show ?thesis by auto
  next
    assume "m \<in> set outs"
    with run have "m \<in> set (snd (worker pf active' msgs))" by simp
    from Cons.IH [OF this] show ?thesis by auto
  qed
qed

text \<open>
  Claim C9. Handling a cancel message posts nothing, neither a result nor an error message,
  and when it names the active request it clears the active id. Once the cancel message
  for the active request \<open>r\<close> has been handled, no progress, result or error message for
  \<open>r\<close> is posted, whatever messages follow. A request is identified by its id: the
  messages that follow are those of other requests, none of them is an analyze message
  with the id \<open>r\<close> (the protocol leaves the reuse of an id undefined).
\<close>

theorem cancel_silences_request:
  assumes "\<forall>logs st. Analyze r logs st \<notin> set rest"
  shows "onmessage pf (Some r) (Cancel r) = (None, [])
       \<and> snd (onmessage pf active (Cancel r)) = []
       \<and> (\<forall>m \<in> set (snd (worker pf (Some r) (Cancel r # rest))). requestIdOf m \<noteq> r)"
proof -
  have "requestIdOf m \<noteq> r" if "m \<in> set (snd (worker pf (Some r) (Cancel r # rest)))" for m
  proof -
    from worker_posts [OF that] obtain logs st
      where "Analyze (requestIdOf m) logs st \<in> set (Cancel r # rest)" by blast
    then have "Analyze (requestIdOf m) logs st \<in> set rest" by simp
    with assms show ?thesis by auto
  qed
  then show ?thesis by simp
qed

theorem cancel_silences_request_witness:
  "onmessage samplePlatform (Some ''r1'') (Cancel ''r1'') = (None, [])
   \<and> ProgressMessage ''r1'' Start 0
        \<notin> set (snd (worker samplePlatform (Some ''r1'') [Cancel ''r1'', Analyze ''r2'' [] sampleSettings]))
   \<and> snd (worker samplePlatform (Some ''r1'') [Cancel ''r1'', Analyze ''r2'' [] sampleSettings]) =
       [ProgressMessage ''r2'' Start 0,
        ResultMessage ''r2'' \<lparr>elements = [], clusters = [], waves = [], scorecards = []\<rparr>]"
proof -
  have "\<forall>logs st. Analyze ''r1'' logs st \<notin> set [Analyze ''r2'' [] sampleSettings]"
    by simp
  from cancel_silences_request [OF this, of samplePlatform None]
  have "\<forall>m \<in> set (snd (worker samplePlatform (Some ''r1'') [Cancel ''r1'', Analyze ''r2'' [] sampleSettings])).
          requestIdOf m \<noteq> ''r1''"
    and "onmessage samplePlatform (Some ''r1'') (Cancel ''r1'') = (None, [])"
    by blast+
  moreover have "requestIdOf (ProgressMessage ''r1'' Start 0) = ''r1''"
    by (simp add: requestIdOf_def)
  moreover have "snd (worker samplePlatform (Some ''r1'') [Cancel ''r1'', Analyze ''r2'' [] sampleSettings]) =
       [ProgressMessage ''r2'' Start 0,
        ResultMessage ''r2'' \<lparr>elements = [], clusters = [], waves = [], scorecards = []\<rparr>]"
    by (simp add: analyzeProgress_def analyzeLogs_empty post_def)
  ultimately show ?thesis by blast
qed

text \<open>
  The hypothesis on the later messages is needed: the handler sets the active id on every
  analyze message, so an analyze message that carries the id \<open>r1\<close> again is a new request
  under that id and is answered.
\<close>

lemma reused_id_is_a_new_request:
  "fst (worker samplePlatform None [Analyze ''r1'' [] sampleSettings]) = Some ''r1''
   \<and> snd (worker samplePlatform (Some ''r1'') [Cancel ''r1'', Analyze ''r1'' [] sampleSettings]) =
       [ProgressMessage ''r1'' Start 0,
        ResultMessage ''r1'' \<lparr>elements = [], clusters = [], waves = [], scorecards = []\<rparr>]"
  by (simp add: analyzeProgress_def analyzeLogs_empty post_def)

section \<open>Sanitized rows\<close>

lemma last_dropWhile: "dropWhile P xs \<noteq> [] \<Longrightarrow> last (dropWhile P xs) = last xs"
  by (metis last_appendR takeWhile_dropWhile_id)

lemma trim_ends:
  assumes "trim s \<noteq> []"
  shows "\<not> isWhiteSpace (hd (trim s))" and "\<not> isWhiteSpace (last (trim s))"
proof -
  define xs where "xs = dropWhile isWhiteSpace s"
  define ys where "ys = dropWhile isWhiteSpace (rev xs)"
  have t: "trim s = rev ys" by (simp add: trim_def xs_def ys_def)
  with assms have ys: "ys \<noteq> []" by simp
  then have xs: "xs \<noteq> []" by (auto simp: ys_def)
  have "\<not> isWhiteSpace (hd ys)"
    using ys unfolding ys_def by (rule hd_dropWhile)
  then show "\<not> isWhiteSpace (last (trim s))"
    using ys by (simp add: t last_rev)
  have "last ys = last (rev xs)"
    using ys unfolding ys_def by (rule last_dropWhile)
  also have "\<dots> = hd xs" using xs by (simp add: last_rev)
  finally have "hd (trim s) = hd xs" using ys by (simp add: t hd_rev)
  moreover have "\<not> isWhiteSpace (hd xs)"
    using xs unfolding xs_def by (rule hd_dropWhile)
  ultimately show "\<not> isWhiteSpace (hd (trim s))" by simp
qed

lemma trim_fixed:
  assumes "\<not> isWhiteSpace (hd t)" and "\<not> isWhiteSpace (last t)"
  shows "trim t = t"
proof (cases "t = []")
  case True
  then show ?thesis by (simp add: trim_def)
next
  case False
  with assms(1) have "dropWhile isWhiteSpace t = t"
    by (cases t) auto
  moreover from False assms(2) have "dropWhile isWhiteSpace (rev t) = rev t"
    by (cases "rev t") (auto simp: hd_rev [symmetric])
  ultimately show ?thesis by (simp add: trim_def)
qed

lemma trim_idem: "trim (trim s) = trim s"
proof (cases "trim s = []")
  case True
  moreover have "trim [] = []" by (simp add: trim_def)
  ultimately show ?thesis by simp
next
  case False
  from trim_ends [OF False] show ?thesis by (rule trim_fixed)
qed

lemma validRowsOf_rows:
  "row \<in> set (validRowsOf parse logs) \<Longrightarrow>
   \<exists>orig \<in> set logs.
     row = orig\<lparr>timestamp := trim (timestamp orig), LogEntry.actor := trim (LogEntry.actor orig),
                LogEntry.target := trim (LogEntry.target orig),
                LogEntry.action := trim (LogEntry.action orig), platform := trim (platform orig)\<rparr>
     \<and> trim (timestamp orig) \<noteq> [] \<and> trim (LogEntry.actor orig) \<noteq> []
     \<and> trim (LogEntry.target orig) \<noteq> [] \<and> trim (LogEntry.action orig) \<noteq> []
     \<and> trim (platform orig) \<noteq> [] \<and> parse (trim (timestamp orig)) \<noteq> None"
proof (induction logs)
  case Nil
  then show ?case by simp
next
  case (Cons r logs)
  show ?case
  proof (cases "row \<in> set (validRowsOf parse logs)")
    case True
    from Cons.IH [OF True] show ?thesis by auto
  next
    case False
    with Cons.prems show ?thesis
      by (simp add: Let_def split: if_splits)
  qed
qed

text \<open>
  Claim C10. Every row that \<open>sanitizeLogs\<close> returns has a timestamp, actor, target, action
  and platform that are non-empty after trimming, and its timestamp parses to a time value.
\<close>

theorem sanitizeLogs_rows_clean:
  assumes "row \<in> set (fst (sanitizeLogs parse logs))"
  shows "trim (timestamp row) \<noteq> [] \<and> trim (LogEntry.actor row) \<noteq> []
       \<and> trim (LogEntry.target row) \<noteq> [] \<and> trim (LogEntry.action row) \<noteq> []
       \<and> trim (platform row) \<noteq> [] \<and> parse (timestamp row) \<noteq> None"
proof -
  from assms have "row \<in> set (validRowsOf parse logs)"
    by (simp add: sanitizeLogs_def Let_def)
  from validRowsOf_rows [OF this] show ?thesis
    by (auto simp: trim_idem)
qed

theorem sanitizeLogs_rows_clean_witness:
  "fst (sanitizeLogs sampleParse untidyRows) = [event ''2024-01-01T00:00:00Z'' ''A'' ''follow'' ''T'']
   \<and> trim (timestamp (event ''2024-01-01T00:00:00Z'' ''A'' ''follow'' ''T'')) \<noteq> []
   \<and> trim (LogEntry.actor (event ''2024-01-01T00:00:00Z'' ''A'' ''follow'' ''T'')) \<noteq> []
   \<and> sampleParse (timestamp (event ''2024-01-01T00:00:00Z'' ''A'' ''follow'' ''T'')) \<noteq> None"
proof -
  have rows: "fst (sanitizeLogs sampleParse untidyRows) = [event ''2024-01-01T00:00:00Z'' ''A'' ''follow'' ''T'']"
    by code_simp
  then have "event ''2024-01-01T00:00:00Z'' ''A'' ''follow'' ''T'' \<in> set (fst (sanitizeLogs sampleParse untidyRows))"
    by simp
  from sanitizeLogs_rows_clean [OF this] rows show ?thesis by simp
qed

section \<open>The bucket table\<close>

lemma set_modify:
  "set (modify k f m) = (\<lambda>(k', v). if k' = k then (k', f v) else (k', v)) ` set m"
  by (simp add: modify_def)

lemma set_touch: "set (touch k d m) \<subseteq> insert (k, d) (set m)"
  by (auto simp: touch_def)

lemma keyed_modify_touch:
  assumes "distinct (map fst m)" and "\<And>k' v. (k', v) \<in> set m \<Longrightarrow> Q v" and "Q d"
    and "\<And>v. Q v \<Longrightarrow> Q (f v)"
  shows "distinct (map fst (modify k f (touch k d m)))"
    and "\<And>k' v. (k', v) \<in> set (modify k f (touch k d m)) \<Longrightarrow> Q v"
proof -
  show "distinct (map fst (modify k f (touch k d m)))"
    using assms(1) by (simp add: keys_modify distinct_keys_touch)
  fix k' v
  assume "(k', v) \<in> set (modify k f (touch k d m))"
  then obtain v0 where v0: "(k', v0) \<in> set (touch k d m)" and v: "v = (if k' = k then f v0 else v0)"
    by (auto simp: set_modify split: if_splits)
  from v0 set_touch [of k d m] have "(k', v0) = (k, d) \<or> (k', v0) \<in> set m" by auto
  with assms(2,3) have "Q v0" by auto
  with assms(4) v show "Q v" by simp
qed

lemma keyedTargets_step:
  "keyedTargets byTarget \<Longrightarrow>
   keyedTargets (if c then byTarget else modify t f (touch t d byTarget))"
  unfolding keyedTargets_def by (simp add: keys_modify distinct_keys_touch)

lemma keyedActions_step:
  assumes "keyedActions byAction"
  shows "keyedActions
           (if c' then byAction
            else modify a (\<lambda>byTarget. if c then byTarget else modify t f (touch t d byTarget))
                   (touch a [] byAction))"
proof (cases c')
  case True
  with assms show ?thesis by simp
next
  case False
  have d: "distinct (map fst byAction)"
    and e: "\<And>k' v. (k', v) \<in> set byAction \<Longrightarrow> keyedTargets v"
    using assms unfolding keyedActions_def by auto
  have "keyedTargets []" by (simp add: keyedTargets_def)
  note r = keyed_modify_touch [where Q = keyedTargets, OF d e this keyedTargets_step]
  show ?thesis
    unfolding keyedActions_def using False r by (auto simp del: split_paired_All)
qed

lemma wellKeyed_binStep:
  assumes "wellKeyed tb"
  shows "wellKeyed (binStep b e tb)"
proof -
  have d: "distinct (map fst tb)"
    and e: "\<And>k' v. (k', v) \<in> set tb \<Longrightarrow> keyedActions v"
    using assms unfolding wellKeyed_def by auto
  have "keyedActions []" by (simp add: keyedActions_def)
  note r = keyed_modify_touch [where Q = keyedActions, OF d e this keyedActions_step]
  show ?thesis
    unfolding wellKeyed_def binStep_def using r by (auto simp del: split_paired_All)
qed

lemma wellKeyed_fold_binStep:
  "wellKeyed tb \<Longrightarrow> wellKeyed (fold (\<lambda>l. binStep (key l) l) logs tb)"
  by (induction logs arbitrary: tb) (simp_all add: wellKeyed_binStep)

lemma wellKeyed_empty: "wellKeyed []"
  by (simp add: wellKeyed_def)

lemma setAdd_Nil: "setAdd x [] = [x]"
  by (simp add: setAdd_def)

lemma binInfoAt_binStep:
  "binInfoAt (binStep b e tb) b' a' t' =
     (if b' = b \<and> a' = LogEntry.action e \<and> t' = LogEntry.target e
         \<and> \<not> inherited (LogEntry.action e) \<and> \<not> inherited (LogEntry.target e)
      then Some (case binInfoAt tb b' a' t' of
                   None \<Rightarrow> (Suc 0, [LogEntry.actor e])
                 | Some (c, as) \<Rightarrow> (Suc c, setAdd (LogEntry.actor e) as))
      else binInfoAt tb b' a' t')"
  unfolding binInfoAt_def binStep_def
  by (auto simp: map_of_modify map_of_touch setAdd_Nil split: option.splits)


lemma set_fold_setAdd: "set (fold setAdd xs ys) = set xs \<union> set ys"
  by (induction xs arbitrary: ys) (auto simp: set_setAdd)

lemma distinct_fold_setAdd: "distinct ys \<Longrightarrow> distinct (fold setAdd xs ys)"
  by (induction xs arbitrary: ys) (auto simp: distinct_setAdd)

lemma length_fold_setAdd: "length (fold setAdd xs []) = card (set xs)"
proof -
  have "distinct (fold setAdd xs [])" by (simp add: distinct_fold_setAdd)
  then have "length (fold setAdd xs []) = card (set (fold setAdd xs []))"
    by (simp add: distinct_card)
  then show ?thesis by (simp add: set_fold_setAdd)
qed

lemma groupOf_snoc:
  "groupOf pf st (logs @ [l]) b a t =
     groupOf pf st logs b a t
     @ (if map_option (binOf (binSizeMs st)) (dateParse pf (timestamp l)) = Some b
           \<and> LogEntry.action l = a \<and> LogEntry.target l = t then [l] else [])"
  by (simp add: groupOf_def)

lemma binInfoAt_fold:
  assumes "\<forall>l \<in> set logs. dateParse pf (timestamp l) \<noteq> None"
  shows "binInfoAt (fold (\<lambda>l. binStep (binOf (binSizeMs st) (the (dateParse pf (timestamp l)))) l) logs [])
           b a t =
         (if inherited a \<or> inherited t \<or> groupOf pf st logs b a t = [] then None
          else Some (length (groupOf pf st logs b a t),
                     fold setAdd (map LogEntry.actor (groupOf pf st logs b a t)) []))"
  using assms
proof (induction logs arbitrary: b a t rule: rev_induct)
  case Nil
  then show ?case by (simp add: groupOf_def binInfoAt_def)
next
  case (snoc l logs)
  from snoc.prems obtain ms where ms: "dateParse pf (timestamp l) = Some ms"
    by auto
  define tb where "tb = fold (\<lambda>l. binStep (binOf (binSizeMs st) (the (dateParse pf (timestamp l)))) l) logs []"
  from snoc have IH: "\<And>b a t. binInfoAt tb b a t =
         (if inherited a \<or> inherited t \<or> groupOf pf st logs b a t = [] then None
          else Some (length (groupOf pf st logs b a t),
                     fold setAdd (map LogEntry.actor (groupOf pf st logs b a t)) []))"
    unfolding tb_def by simp
  have step: "fold (\<lambda>l. binStep (binOf (binSizeMs st) (the (dateParse pf (timestamp l)))) l) (logs @ [l]) []
      = binStep (binOf (binSizeMs st) ms) l tb"
    by (simp add: tb_def ms)
  show ?case
  proof (cases "b = binOf (binSizeMs st) ms \<and> a = LogEntry.action l \<and> t = LogEntry.target l")
    case True
    then show ?thesis
      unfolding step binInfoAt_binStep groupOf_snoc IH
      by (simp add: ms setAdd_Nil)
  next
    case False
    then show ?thesis
      unfolding step binInfoAt_binStep groupOf_snoc IH
      by (auto simp: ms)
  qed
qed

lemma pushAll_map_Inr: "pushAll (map Inr xs) = Inr xs"
  by (induction xs) simp_all

lemma pushAll_Inr: "pushAll rs = Inr xs \<Longrightarrow> rs = map Inr xs"
  by (induction rs arbitrary: xs rule: pushAll.induct) (auto split: sum.splits)

lemma pushAll_returns: "pushAll rs = Inr xs \<longleftrightarrow> rs = map Inr xs"
  using pushAll_Inr pushAll_map_Inr by metis

lemma mkWave_returns:
  "mkWave st time act tgt info = Inr w \<longleftrightarrow>
     (- maxTime \<le> time + binSizeMs st \<and> time + binSizeMs st \<le> maxTime
      \<and> w = \<lparr>windowStart = time, windowEnd = time + binSizeMs st, action = act, target = tgt,
              actors = snd info, zScore = real (fst info) / real_of_int (max 1 (waveMinCount st))\<rparr>)"
  by (auto simp: mkWave_def toISOString_def)

lemma in_waveAttempts:
  "r \<in> set (waveAttempts st tb) \<longleftrightarrow>
     (\<exists>time byAction act byTarget tgt info.
        (time, byAction) \<in> set tb \<and> (act, byTarget) \<in> set byAction \<and> (tgt, info) \<in> set byTarget
        \<and> isWave st info \<and> mkWave st time act tgt info = r)"
  unfolding waveAttempts_def by (auto split: if_splits) blast+

lemma in_emitWaves:
  assumes "emitWaves st tb = Inr ws"
  shows "w \<in> set ws \<longleftrightarrow>
     (\<exists>time byAction act byTarget tgt info.
        (time, byAction) \<in> set tb \<and> (act, byTarget) \<in> set byAction \<and> (tgt, info) \<in> set byTarget
        \<and> isWave st info \<and> mkWave st time act tgt info = Inr w)"
proof -
  from assms have "waveAttempts st tb = map Inr ws"
    by (simp add: emitWaves_def pushAll_returns)
  then have "w \<in> set ws \<longleftrightarrow> Inr w \<in> set (waveAttempts st tb)"
    by auto
  then show ?thesis
    unfolding in_waveAttempts .
qed

lemma attempt_returns:
  assumes "emitWaves st tb = Inr ws" and "r \<in> set (waveAttempts st tb)"
  shows "\<exists>w \<in> set ws. r = Inr w"
proof -
  from assms(1) have "waveAttempts st tb = map Inr ws"
    by (simp add: emitWaves_def pushAll_returns)
  with assms(2) show ?thesis by auto
qed

lemma binInfoAt_Some_iff:
  assumes "wellKeyed tb"
  shows "binInfoAt tb b a t = Some info \<longleftrightarrow>
     (\<exists>byAction byTarget. (b, byAction) \<in> set tb \<and> (a, byTarget) \<in> set byAction
        \<and> (t, info) \<in> set byTarget)"
proof
  assume "binInfoAt tb b a t = Some info"
  then show "\<exists>byAction byTarget. (b, byAction) \<in> set tb \<and> (a, byTarget) \<in> set byAction
        \<and> (t, info) \<in> set byTarget"
    by (auto simp: binInfoAt_def split: option.splits dest: map_of_SomeD)
next
  assume "\<exists>byAction byTarget. (b, byAction) \<in> set tb \<and> (a, byTarget) \<in> set byAction
        \<and> (t, info) \<in> set byTarget"
  then obtain byAction byTarget where 1: "(b, byAction) \<in> set tb"
    and 2: "(a, byTarget) \<in> set byAction" and 3: "(t, info) \<in> set byTarget" by blast
  from assms 1 have k2: "keyedActions byAction" and d1: "distinct (map fst tb)"
    by (auto simp: wellKeyed_def)
  from k2 2 have k3: "keyedTargets byTarget" and d2: "distinct (map fst byAction)"
    by (auto simp: keyedActions_def)
  from d1 1 have "map_of tb b = Some byAction" by simp
  moreover from d2 2 have "map_of byAction a = Some byTarget" by simp
  moreover from k3 3 have "map_of byTarget t = Some info" by (simp add: keyedTargets_def)
  ultimately show "binInfoAt tb b a t = Some info"
    by (simp add: binInfoAt_def)
qed

lemma wave_emitted_iff:
  assumes "wellKeyed tb" and "emitWaves st tb = Inr ws"
  shows "(\<exists>w \<in> set ws. windowStart w = b \<and> WaveResult.action w = a \<and> WaveResult.target w = t)
     \<longleftrightarrow> (\<exists>info. binInfoAt tb b a t = Some info \<and> isWave st info)"
proof -
  have "(\<exists>w \<in> set ws. windowStart w = b \<and> WaveResult.action w = a \<and> WaveResult.target w = t)
     \<longleftrightarrow> (\<exists>byAction byTarget info. (b, byAction) \<in> set tb \<and> (a, byTarget) \<in> set byAction
        \<and> (t, info) \<in> set byTarget \<and> isWave st info)"
  proof
    assume "\<exists>w \<in> set ws. windowStart w = b \<and> WaveResult.action w = a \<and> WaveResult.target w = t"
    then obtain w where w: "w \<in> set ws"
      and k: "windowStart w = b" "WaveResult.action w = a" "WaveResult.target w = t" by blast
    from w [unfolded in_emitWaves [OF assms(2)]] obtain time byAction act byTarget tgt info
      where m: "(time, byAction) \<in> set tb" "(act, byTarget) \<in> set byAction"
        "(tgt, info) \<in> set byTarget" "isWave st info" and weq: "mkWave st time act tgt info = Inr w"
      by blast
    from k weq have "time = b" "act = a" "tgt = t" by (auto simp: mkWave_returns)
    with m show "\<exists>byAction byTarget info. (b, byAction) \<in> set tb \<and> (a, byTarget) \<in> set byAction
        \<and> (t, info) \<in> set byTarget \<and> isWave st info" by blast
  next
    assume "\<exists>byAction byTarget info. (b, byAction) \<in> set tb \<and> (a, byTarget) \<in> set byAction
        \<and> (t, info) \<in> set byTarget \<and> isWave st info"
    then obtain byAction byTarget info where m: "(b, byAction) \<in> set tb" "(a, byTarget) \<in> set byAction"
        "(t, info) \<in> set byTarget" "isWave st info" by blast
    then have "mkWave st b a t info \<in> set (waveAttempts st tb)"
      unfolding in_waveAttempts by blast
    from attempt_returns [OF assms(2) this] obtain w
      where w: "w \<in> set ws" and weq: "mkWave st b a t info = Inr w" by blast
    from weq have "windowStart w = b" "WaveResult.action w = a" "WaveResult.target w = t"
      by (auto simp: mkWave_returns)
    with w show "\<exists>w \<in> set ws. windowStart w = b \<and> WaveResult.action w = a \<and> WaveResult.target w = t"
      by blast
  qed
  also have "\<dots> \<longleftrightarrow> (\<exists>info. binInfoAt tb b a t = Some info \<and> isWave st info)"
    unfolding binInfoAt_Some_iff [OF assms(1)] by blast
  finally show ?thesis .
qed


section \<open>Waves\<close>

lemma analyzeLogs_returns:
  assumes "analyzeLogs pf logs st = Inr res" and "logs \<noteq> []"
  shows "\<exists>tb. binLogs (dateParse pf) (binSizeMs st) logs [] = Inr tb \<and> emitWaves st tb = Inr (waves res)"
  using assms by (auto simp: analyzeLogs_nonempty split: sum.splits)

text \<open>
  The waves of a run that returns, for a log in which no action and no target is an
  inherited name. A wave with a given bucket, action and target is among them if and only
  if the group of the triple (the events of the log with that bucket, action and target; a
  group has at least one event) has at least \<open>waveMinCount\<close> events and at least
  \<open>waveMinActors\<close> distinct actors.
\<close>

lemma groupOf_inherited:
  assumes "\<forall>l \<in> set logs. \<not> inherited (LogEntry.action l) \<and> \<not> inherited (LogEntry.target l)"
    and "inherited a \<or> inherited t"
  shows "groupOf pf st logs b a t = []"
  using assms by (auto simp: groupOf_def filter_empty_conv)

lemma waves_of_run:
  assumes "analyzeLogs pf logs st = Inr res"
    and own: "\<forall>l \<in> set logs. \<not> inherited (LogEntry.action l) \<and> \<not> inherited (LogEntry.target l)"
  shows "(\<exists>w \<in> set (waves res).
             windowStart w = b \<and> WaveResult.action w = a \<and> WaveResult.target w = t)
         \<longleftrightarrow> (groupOf pf st logs b a t \<noteq> []
              \<and> waveMinCount st \<le> int (length (groupOf pf st logs b a t))
              \<and> waveMinActors st \<le> int (card (LogEntry.actor ` set (groupOf pf st logs b a t))))"
proof (cases "logs = []")
  case True
  with assms have "waves res = []" by (auto simp: analyzeLogs_empty)
  with True show ?thesis by (simp add: groupOf_def)
next
  case False
  from analyzeLogs_returns [OF assms(1) False] obtain tb
    where bl: "binLogs (dateParse pf) (binSizeMs st) logs [] = Inr tb"
      and em: "emitWaves st tb = Inr (waves res)" by blast
  from binLogs_returns [OF bl]
  have parsable: "\<forall>l \<in> set logs. dateParse pf (timestamp l) \<noteq> None"
    and tb: "tb = fold (\<lambda>l. binStep (binOf (binSizeMs st) (the (dateParse pf (timestamp l)))) l) logs []"
    by simp_all
  have keyed: "wellKeyed tb"
    unfolding tb by (rule wellKeyed_fold_binStep [OF wellKeyed_empty])
  have "(\<exists>w \<in> set (waves res).
            windowStart w = b \<and> WaveResult.action w = a \<and> WaveResult.target w = t)
        \<longleftrightarrow> (\<exists>info. binInfoAt tb b a t = Some info \<and> isWave st info)"
    by (rule wave_emitted_iff [OF keyed em])
  moreover have "binInfoAt tb b a t =
         (if inherited a \<or> inherited t \<or> groupOf pf st logs b a t = [] then None
          else Some (length (groupOf pf st logs b a t),
                     fold setAdd (map LogEntry.actor (groupOf pf st logs b a t)) []))"
    unfolding tb by (rule binInfoAt_fold [OF parsable])
  moreover have "inherited a \<or> inherited t \<Longrightarrow> groupOf pf st logs b a t = []"
    by (rule groupOf_inherited [OF own])
  ultimately show ?thesis
    by (auto simp: isWave_def length_fold_setAdd)
qed

text \<open>
  Claim C5 is not what the code does for a group whose action is a name that objects
  inherit. The two events of \<open>inheritedAction\<close> fall into one bucket with the action
  \<open>constructor\<close> and the target \<open>T\<close>: the group has two events by two actors, which meets
  both thresholds of \<open>sampleSettings\<close>, and the run returns without any wave. The same two
  events with the action \<open>follow\<close> (the log \<open>sharedTarget\<close>) give the wave of their group.
\<close>

theorem inherited_action_group_has_no_wave:
  "groupOf samplePlatform sampleSettings inheritedAction 1704067200000 ''constructor'' ''T''
     = inheritedAction
   \<and> waveMinCount sampleSettings = int (length inheritedAction)
   \<and> waveMinActors sampleSettings = int (card (LogEntry.actor ` set inheritedAction))
   \<and> map_sum id waves (analyzeLogs samplePlatform inheritedAction sampleSettings) = Inr []
   \<and> map_sum id waves (analyzeLogs samplePlatform sharedTarget sampleSettings)
       = Inr [\<lparr>windowStart = 1704067200000, windowEnd = 1704067500000, action = ''follow'',
               target = ''T'', actors = [''A'', ''B''], zScore = 1\<rparr>]"
proof -
  have "groupOf samplePlatform sampleSettings inheritedAction 1704067200000 ''constructor'' ''T''
     = inheritedAction"
    by code_simp
  moreover have "waveMinCount sampleSettings = int (length inheritedAction)"
    "waveMinActors sampleSettings = int (card (LogEntry.actor ` set inheritedAction))"
    by (simp_all add: sampleSettings_def inheritedAction_def event_def)
  moreover have "map_sum id waves (analyzeLogs samplePlatform inheritedAction sampleSettings) = Inr []"
    by code_simp
  moreover have "map_sum id waves (analyzeLogs samplePlatform sharedTarget sampleSettings)
       = Inr [\<lparr>windowStart = 1704067200000, windowEnd = 1704067500000, action = ''follow'',
               target = ''T'', actors = [''A'', ''B''], zScore = 1\<rparr>]"
    by code_simp
  ultimately show ?thesis by simp
qed

lemma binSizeMs_thresholds:
  "binSizeMs (st\<lparr>waveMinCount := c, waveMinActors := a\<rparr>) = binSizeMs st"
  by (simp add: binSizeMs_def)

text \<open>
  Claim C8. Raising \<open>waveMinCount\<close> or \<open>waveMinActors\<close> adds no wave: every wave that the run
  under the higher thresholds returns is among the waves that the run under the lower
  thresholds returns, with the same window, action, target and actors (its \<open>zScore\<close>, which
  divides by \<open>waveMinCount\<close>, may differ).
\<close>

theorem raising_thresholds_removes_waves:
  assumes hi: "analyzeLogs pf logs hi = Inr resHi"
    and lo: "analyzeLogs pf logs (hi\<lparr>waveMinCount := c, waveMinActors := a\<rparr>) = Inr resLo"
    and le: "c \<le> waveMinCount hi" "a \<le> waveMinActors hi"
    and w: "w \<in> set (waves resHi)"
  shows "\<exists>w' \<in> set (waves resLo).
           windowStart w' = windowStart w \<and> windowEnd w' = windowEnd w
           \<and> WaveResult.action w' = WaveResult.action w
           \<and> WaveResult.target w' = WaveResult.target w \<and> actors w' = actors w"
proof -
  define low where "low = hi\<lparr>waveMinCount := c, waveMinActors := a\<rparr>"
  have size: "binSizeMs low = binSizeMs hi"
    by (simp add: low_def binSizeMs_thresholds)
  have ne: "logs \<noteq> []"
    using hi w by (auto simp: analyzeLogs_empty)
  from analyzeLogs_returns [OF hi ne] obtain tb
    where tb: "binLogs (dateParse pf) (binSizeMs hi) logs [] = Inr tb"
      and whi: "emitWaves hi tb = Inr (waves resHi)" by blast
  from lo have "analyzeLogs pf logs low = Inr resLo" by (simp add: low_def)
  from analyzeLogs_returns [OF this ne] tb have wlo: "emitWaves low tb = Inr (waves resLo)"
    by (simp add: size)
  from w [unfolded in_emitWaves [OF whi]] obtain time byAction act byTarget tgt info
    where m: "(time, byAction) \<in> set tb" "(act, byTarget) \<in> set byAction"
      "(tgt, info) \<in> set byTarget" and iw: "isWave hi info"
      and weq: "mkWave hi time act tgt info = Inr w"
    by blast
  from iw le have "isWave low info"
    by (simp add: isWave_def low_def)
  with m have "mkWave low time act tgt info \<in> set (waveAttempts low tb)"
    unfolding in_waveAttempts by blast
  from attempt_returns [OF wlo this] obtain w'
    where w': "w' \<in> set (waves resLo)" and w'eq: "mkWave low time act tgt info = Inr w'" by blast
  from weq w'eq have "windowStart w' = windowStart w" "windowEnd w' = windowEnd w"
    "WaveResult.action w' = WaveResult.action w" "WaveResult.target w' = WaveResult.target w"
    "actors w' = actors w"
    by (auto simp: mkWave_returns size)
  with w' show ?thesis by blast
qed

lemma sharedTarget_low_result:
  "map_sum id waves
     (analyzeLogs samplePlatform sharedTarget (sampleSettings\<lparr>waveMinCount := 1, waveMinActors := 1\<rparr>))
   = Inr [\<lparr>windowStart = 1704067200000, windowEnd = 1704067500000, action = ''follow'',
           target = ''T'', actors = [''A'', ''B''], zScore = 2\<rparr>]"
  by code_simp

theorem raising_thresholds_removes_waves_witness:
  "\<exists>resLo. analyzeLogs samplePlatform sharedTarget (sampleSettings\<lparr>waveMinCount := 1, waveMinActors := 1\<rparr>)
              = Inr resLo
         \<and> (\<exists>w' \<in> set (waves resLo).
               windowStart w' = 1704067200000 \<and> windowEnd w' = 1704067500000
               \<and> WaveResult.action w' = ''follow'' \<and> WaveResult.target w' = ''T''
               \<and> actors w' = [''A'', ''B''])"
proof -
  from sharedTarget_low_result obtain resLo
    where lo: "analyzeLogs samplePlatform sharedTarget (sampleSettings\<lparr>waveMinCount := 1, waveMinActors := 1\<rparr>)
                 = Inr resLo"
    by (cases "analyzeLogs samplePlatform sharedTarget (sampleSettings\<lparr>waveMinCount := 1, waveMinActors := 1\<rparr>)")
       simp_all
  have le: "1 \<le> waveMinCount sampleSettings" "1 \<le> waveMinActors sampleSettings"
    by (simp_all add: sampleSettings_def)
  have w: "\<lparr>windowStart = 1704067200000, windowEnd = 1704067500000, action = ''follow'',
            target = ''T'', actors = [''A'', ''B''], zScore = 1\<rparr> \<in> set (waves sharedTargetResult)"
    by (simp add: sharedTargetResult_def)
  from raising_thresholds_removes_waves [OF sharedTarget_result lo le w] lo
  show ?thesis by simp
qed

text \<open>
  Both runs are taken to return. At the last instant of a \<open>Date\<close> the end of the window
  cannot be rendered: the log \<open>lastInstant\<close> returns its one wave under the thresholds 2
  and 2, where the group of the third event does not pass, and throws under the
  thresholds 1 and 1, where it does.
\<close>

lemma window_end_beyond_the_last_instant:
  "map_sum id waves (analyzeLogs farPlatform lastInstant sampleSettings)
     = Inr [\<lparr>windowStart = 1704067200000, windowEnd = 1704067500000, action = ''follow'',
             target = ''T'', actors = [''A'', ''B''], zScore = 1\<rparr>]
   \<and> analyzeLogs farPlatform lastInstant (sampleSettings\<lparr>waveMinCount := 1, waveMinActors := 1\<rparr>)
     = Inl (RangeError ''Invalid time value'')"
  by code_simp

section \<open>The traversal\<close>

lemma visitNeighbors_spec:
  "visitNeighbors ns (v, s) = (v', s') \<Longrightarrow>
   set v' = set v \<union> set ns \<and> (\<exists>new. s' = new @ s \<and> set new = set ns - set v \<and> distinct new)"
proof (induction ns arbitrary: v s)
  case Nil
  then show ?case by simp
next
  case (Cons n ns)
  show ?case
  proof (cases "n \<in> set v")
    case True
    with Cons.prems have "visitNeighbors ns (v, s) = (v', s')" by simp
    from Cons.IH [OF this] True show ?thesis by auto
  next
    case False
    with Cons.prems have "visitNeighbors ns (setAdd n v, n # s) = (v', s')" by simp
    from Cons.IH [OF this] obtain new
      where v': "set v' = set (setAdd n v) \<union> set ns" and s': "s' = new @ n # s"
        and new: "set new = set ns - set (setAdd n v)" "distinct new"
      by blast
    have "s' = (new @ [n]) @ s" by (simp add: s')
    moreover have "set (new @ [n]) = set (n # ns) - set v"
      using new False by (auto simp: set_setAdd)
    moreover have "distinct (new @ [n])"
      using new by (auto simp: set_setAdd)
    moreover have "set v' = set v \<union> set (n # ns)"
      using v' by (auto simp: set_setAdd)
    ultimately show ?thesis by blast
  qed
qed

lemma dfsLoop_correct:
  assumes "dfsLoop graph stack visited found = (visited', found')"
    and "set visited = V0 \<union> set found \<union> set stack"
    and "distinct (found @ stack)"
    and "set (found @ stack) \<inter> V0 = {}"
    and "\<forall>u \<in> set found. set (neighbors graph u) \<subseteq> set visited"
    and "\<forall>u \<in> set (found @ stack). (start, u) \<in> (adjacent graph)\<^sup>*"
  shows "set visited' = V0 \<union> set found' \<and> distinct found' \<and> set found' \<inter> V0 = {}
       \<and> (\<forall>u \<in> set found'. set (neighbors graph u) \<subseteq> set visited')
       \<and> (\<forall>u \<in> set found'. (start, u) \<in> (adjacent graph)\<^sup>*)
       \<and> set (found @ stack) \<subseteq> set found'"
  using assms
proof (induction graph stack visited found rule: dfsLoop.induct)
  case (1 graph visited component)
  then show ?case by auto
next
  case (2 graph node stack visited component)
  obtain v1 s1 where vn: "visitNeighbors (neighbors graph node) (visited, stack) = (v1, s1)"
    by (cases "visitNeighbors (neighbors graph node) (visited, stack)")
  from visitNeighbors_spec [OF vn] obtain new
    where v1: "set v1 = set visited \<union> set (neighbors graph node)"
      and s1: "s1 = new @ stack"
      and new: "set new = set (neighbors graph node) - set visited" "distinct new"
    by blast
  from "2.prems"(1) vn have run: "dfsLoop graph s1 v1 (component @ [node]) = (visited', found')"
    by simp
  have vis: "set visited = V0 \<union> set component \<union> set (node # stack)"
    using "2.prems"(2) .
  have a: "set v1 = V0 \<union> set (component @ [node]) \<union> set s1"
    using v1 s1 new vis by auto
  have b: "distinct ((component @ [node]) @ s1)"
    using "2.prems"(3) new vis s1 by auto
  have c: "set ((component @ [node]) @ s1) \<inter> V0 = {}"
    using "2.prems"(4) new vis s1 by auto
  have d: "\<forall>u \<in> set (component @ [node]). set (neighbors graph u) \<subseteq> set v1"
    using "2.prems"(5) v1 by auto
  have reach_node: "(start, node) \<in> (adjacent graph)\<^sup>*"
    using "2.prems"(6) by simp
  have "(start, u) \<in> (adjacent graph)\<^sup>*" if "u \<in> set new" for u
  proof -
    from that new have "(node, u) \<in> adjacent graph" by (simp add: adjacent_def)
    with reach_node show ?thesis by (rule rtrancl_into_rtrancl)
  qed
  then have e: "\<forall>u \<in> set ((component @ [node]) @ s1). (start, u) \<in> (adjacent graph)\<^sup>*"
    using "2.prems"(6) s1 by auto
  from "2.IH" [OF vn [symmetric] run a b c d e]
  have res: "set visited' = V0 \<union> set found' \<and> distinct found' \<and> set found' \<inter> V0 = {}
       \<and> (\<forall>u \<in> set found'. set (neighbors graph u) \<subseteq> set visited')
       \<and> (\<forall>u \<in> set found'. (start, u) \<in> (adjacent graph)\<^sup>*)
       \<and> set ((component @ [node]) @ s1) \<subseteq> set found'" .
  moreover have "set (component @ node # stack) \<subseteq> set ((component @ [node]) @ s1)"
    using s1 by auto
  ultimately show ?case by blast
qed

lemma componentOf_refl: "u \<in> componentOf graph u"
  by (simp add: componentOf_def)

lemma componentOf_eq:
  assumes "sym (adjacent graph)" and "v \<in> componentOf graph u"
  shows "componentOf graph v = componentOf graph u"
proof -
  from assms(2) have uv: "(u, v) \<in> (adjacent graph)\<^sup>*" by (simp add: componentOf_def)
  with sym_rtrancl [OF assms(1)] have vu: "(v, u) \<in> (adjacent graph)\<^sup>*" by (rule symD)
  show ?thesis
    unfolding componentOf_def using uv vu by (auto intro: rtrancl_trans)
qed

lemma componentOf_closed:
  "v \<in> componentOf graph u \<Longrightarrow> set (neighbors graph v) \<subseteq> componentOf graph u"
  by (auto simp: componentOf_def adjacent_def intro: rtrancl_into_rtrancl)

lemma dfs_correct:
  assumes sym: "sym (adjacent graph)"
    and closed: "\<forall>u \<in> set visited. set (neighbors graph u) \<subseteq> set visited"
    and fresh: "start \<notin> set visited"
    and run: "dfs graph start visited = (visited', found)"
  shows "set found = componentOf graph start" and "distinct found"
    and "set visited' = set visited \<union> componentOf graph start"
proof -
  from run have loop: "dfsLoop graph [start] (setAdd start visited) [] = (visited', found)"
    by (simp add: dfs_def)
  have "set visited' = set visited \<union> set found \<and> distinct found \<and> set found \<inter> set visited = {}
       \<and> (\<forall>u \<in> set found. set (neighbors graph u) \<subseteq> set visited')
       \<and> (\<forall>u \<in> set found. (start, u) \<in> (adjacent graph)\<^sup>*)
       \<and> set ([] @ [start]) \<subseteq> set found"
    by (rule dfsLoop_correct [OF loop]) (use fresh in \<open>auto simp: set_setAdd\<close>)
  then have vis: "set visited' = set visited \<union> set found" and dist: "distinct found"
    and disj: "set found \<inter> set visited = {}"
    and nb: "\<And>u. u \<in> set found \<Longrightarrow> set (neighbors graph u) \<subseteq> set visited'"
    and reach: "\<And>u. u \<in> set found \<Longrightarrow> (start, u) \<in> (adjacent graph)\<^sup>*"
    and st: "start \<in> set found"
    by auto
  have inside: "x \<in> set found" if u: "u \<in> set found" and x: "x \<in> set (neighbors graph u)" for u x
  proof (rule ccontr)
    assume "x \<notin> set found"
    with nb [OF u] x vis have xv: "x \<in> set visited" by auto
    from x have "(u, x) \<in> adjacent graph" by (simp add: adjacent_def)
    with sym have "(x, u) \<in> adjacent graph" by (rule symD)
    then have "u \<in> set (neighbors graph x)" by (simp add: adjacent_def)
    with closed xv have "u \<in> set visited" by auto
    with u disj show False by auto
  qed
  have "v \<in> set found" if "(start, v) \<in> (adjacent graph)\<^sup>*" for v
    using that
  proof (induction rule: rtrancl_induct)
    case base
    show ?case by (rule st)
  next
    case (step y z)
    from step.hyps(2) have "z \<in> set (neighbors graph y)" by (simp add: adjacent_def)
    with step.IH show ?case by (rule inside)
  qed
  with reach show c: "set found = componentOf graph start"
    by (auto simp: componentOf_def)
  show "distinct found" by (rule dist)
  from vis c show "set visited' = set visited \<union> componentOf graph start" by simp
qed


section \<open>The cluster loop\<close>

lemma members_mkCluster: "members (mkCluster graph cid found) = found"
  by (simp add: mkCluster_def Let_def)

lemma clustersCover_init: "clustersCover graph st [] ([], [], 0)"
  by (simp add: clustersCover_def)

lemma clustersCover_step:
  assumes sym: "sym (adjacent graph)"
    and inv: "clustersCover graph st processed s"
  shows "clustersCover graph st (processed @ [n]) (clusterStep graph st n s)"
proof -
  obtain visited cs cid where s: "s = (visited, cs, cid)" by (cases s)
  from inv s have vis: "set visited = (\<Union>m \<in> set processed. componentOf graph m)"
    and cl: "\<And>c. c \<in> set cs \<Longrightarrow> (\<exists>m \<in> set processed. set (members c) = componentOf graph m)
                          \<and> distinct (members c) \<and> minClusterSize st \<le> int (length (members c))"
    and big: "\<And>m. m \<in> set processed \<Longrightarrow> minClusterSize st \<le> int (card (componentOf graph m))
              \<Longrightarrow> \<exists>c \<in> set cs. set (members c) = componentOf graph m"
    and dist: "distinct (map (\<lambda>c. set (members c)) cs)"
    by (auto simp: clustersCover_def)
  show ?thesis
  proof (cases "n \<in> set visited")
    case True
    with vis obtain m where m: "m \<in> set processed" and nm: "n \<in> componentOf graph m" by auto
    from componentOf_eq [OF sym nm] have eq: "componentOf graph n = componentOf graph m" .
    have step: "clusterStep graph st n s = s"
      using True by (simp add: clusterStep_def s)
    have "set visited = (\<Union>k \<in> set (processed @ [n]). componentOf graph k)"
      using vis eq m by auto
    moreover have "(\<exists>k \<in> set (processed @ [n]). set (members c) = componentOf graph k)
                          \<and> distinct (members c) \<and> minClusterSize st \<le> int (length (members c))"
      if "c \<in> set cs" for c using cl [OF that] by auto
    moreover have "\<exists>c \<in> set cs. set (members c) = componentOf graph k"
      if "k \<in> set (processed @ [n])" and "minClusterSize st \<le> int (card (componentOf graph k))" for k
    proof (cases "k = n")
      case True
      with that(2) eq big [OF m] show ?thesis by simp
    next
      case False
      with that big show ?thesis by auto
    qed
    ultimately show ?thesis
      unfolding step unfolding s clustersCover_def using dist by (simp del: set_append)
  next
    case False
    obtain visited' found where run: "dfs graph n visited = (visited', found)"
      by (cases "dfs graph n visited")
    have closed: "\<forall>u \<in> set visited. set (neighbors graph u) \<subseteq> set visited"
    proof (intro ballI subsetI)
      fix u x
      assume "u \<in> set visited" and x: "x \<in> set (neighbors graph u)"
      with vis obtain m where m: "m \<in> set processed" and um: "u \<in> componentOf graph m" by auto
      from componentOf_closed [OF um] x have "x \<in> componentOf graph m" by auto
      with m vis show "x \<in> set visited" by auto
    qed
    from dfs_correct [OF sym closed False run]
    have found: "set found = componentOf graph n" and dfound: "distinct found"
      and vis': "set visited' = set visited \<union> componentOf graph n" .
    have card: "card (componentOf graph n) = length found"
      using found dfound by (metis distinct_card)
    have v: "set visited' = (\<Union>k \<in> set (processed @ [n]). componentOf graph k)"
      using vis vis' by auto
    show ?thesis
    proof (cases "int (length found) < minClusterSize st")
      case True
      have step: "clusterStep graph st n s = (visited', cs, cid)"
        using False True run by (simp add: clusterStep_def s)
      have "(\<exists>k \<in> set (processed @ [n]). set (members c) = componentOf graph k)
                          \<and> distinct (members c) \<and> minClusterSize st \<le> int (length (members c))"
        if "c \<in> set cs" for c using cl [OF that] by auto
      moreover have "\<exists>c \<in> set cs. set (members c) = componentOf graph k"
        if "k \<in> set (processed @ [n])" and "minClusterSize st \<le> int (card (componentOf graph k))" for k
      proof (cases "k = n")
        case kn: True
        with that(2) card True show ?thesis by simp
      next
        case False
        with that big show ?thesis by auto
      qed
      ultimately show ?thesis
        unfolding step clustersCover_def using dist v by (simp del: set_append)
    next
      case large: False
      define c0 where "c0 = mkCluster graph cid found"
      have mem0: "members c0 = found" by (simp add: c0_def members_mkCluster)
      have step: "clusterStep graph st n s = (visited', cs @ [c0], Suc cid)"
        using False large run by (simp add: clusterStep_def s c0_def)
      have "(\<exists>k \<in> set (processed @ [n]). set (members c) = componentOf graph k)
                          \<and> distinct (members c) \<and> minClusterSize st \<le> int (length (members c))"
        if "c \<in> set (cs @ [c0])" for c
      proof (cases "c = c0")
        case True
        then show ?thesis using mem0 found dfound large by auto
      next
        case False
        with that have "c \<in> set cs" by simp
        from cl [OF this] show ?thesis by auto
      qed
      moreover have "\<exists>c \<in> set (cs @ [c0]). set (members c) = componentOf graph k"
        if "k \<in> set (processed @ [n])" and "minClusterSize st \<le> int (card (componentOf graph k))" for k
      proof (cases "k = n")
        case True
        then show ?thesis using mem0 found by auto
      next
        case False
        with that big show ?thesis by auto
      qed
      moreover have "distinct (map (\<lambda>c. set (members c)) (cs @ [c0]))"
      proof -
        have "set (members c0) \<noteq> set (members c)" if "c \<in> set cs" for c
        proof
          assume eq: "set (members c0) = set (members c)"
          from cl [OF that] obtain m where "m \<in> set processed"
            and "set (members c) = componentOf graph m" by blast
          with vis have "set (members c) \<subseteq> set visited" by auto
          moreover have "n \<in> set (members c0)"
            using mem0 found componentOf_refl by simp
          ultimately show False using eq \<open>n \<notin> set visited\<close> by auto
        qed
        with dist show ?thesis by auto
      qed
      ultimately show ?thesis
        unfolding step clustersCover_def using v by (simp del: set_append)
    qed
  qed
qed

lemma clustersCover_fold:
  assumes "sym (adjacent graph)"
  shows "clustersCover graph st processed s \<Longrightarrow>
         clustersCover graph st (processed @ ns) (fold (clusterStep graph st) ns s)"
proof (induction ns arbitrary: processed s)
  case Nil
  then show ?case by simp
next
  case (Cons n ns)
  from clustersCover_step [OF assms Cons.prems, of n]
  have "clustersCover graph st ((processed @ [n]) @ ns)
          (fold (clusterStep graph st) ns (clusterStep graph st n s))"
    by (rule Cons.IH)
  then show ?case by simp
qed

lemma findClusters_cover:
  assumes "sym (adjacent graph)"
  shows "\<exists>visited cid. clustersCover graph st ns (visited, findClusters graph st ns, cid)"
proof -
  obtain visited cs cid where f: "fold (clusterStep graph st) ns ([], [], 0) = (visited, cs, cid)"
    by (cases "fold (clusterStep graph st) ns ([], [], 0)")
  from clustersCover_fold [OF assms clustersCover_init, of st ns] f
  have "clustersCover graph st ns (visited, cs, cid)" by simp
  moreover from f have "findClusters graph st ns = cs" by (simp add: findClusters_def)
  ultimately show ?thesis by blast
qed


lemma neighbor_adjacencyOf_sym:
  assumes "v \<in> set (neighbors (adjacencyOf st logs) u)"
  shows "u \<in> set (neighbors (adjacencyOf st logs) v)"
proof -
  define A where "A = (\<lambda>x y. length (filter (\<lambda>l. LogEntry.action l \<in> set (positiveActions st)
                        \<and> LogEntry.actor l \<noteq> [] \<and> LogEntry.target l \<noteq> []
                        \<and> LogEntry.actor l = x \<and> LogEntry.target l = y) logs))"
  have cnt: "count_list (neighbors (adjacencyOf st logs) x) y =
               (if x \<in> set (nodes (buildGraph st logs)) then A x y + A y x else 0)" for x y
    unfolding A_def by (rule count_neighbors_adjacencyOf)
  have node: "y \<in> set (nodes (buildGraph st logs))" if "A x y + A y x \<noteq> 0" for x y
  proof -
    from that have "A x y \<noteq> 0 \<or> A y x \<noteq> 0" by simp
    then have "\<exists>l \<in> set logs. LogEntry.actor l = y \<or> LogEntry.target l = y"
      unfolding A_def length_0_conv filter_empty_conv by blast
    then show ?thesis
      unfolding set_nodes_buildGraph by blast
  qed
  from assms have "count_list (neighbors (adjacencyOf st logs) u) v \<noteq> 0"
    by (simp add: count_list_0_iff)
  then have nz: "A u v + A v u \<noteq> 0"
    unfolding cnt by (simp split: if_splits)
  from node [OF nz] have "v \<in> set (nodes (buildGraph st logs))" .
  then have "count_list (neighbors (adjacencyOf st logs) v) u = A v u + A u v"
    unfolding cnt by simp
  with nz have "count_list (neighbors (adjacencyOf st logs) v) u \<noteq> 0" by arith
  then show ?thesis by (simp add: count_list_0_iff)
qed

lemma sym_adjacencyOf: "sym (adjacent (adjacencyOf st logs))"
  by (rule symI) (simp add: adjacent_def neighbor_adjacencyOf_sym)

lemma clusters_analyzeLogs:
  assumes "analyzeLogs pf logs st = Inr res"
  shows "clusters res = findClusters (adjacencyOf st logs) st (nodes (buildGraph st logs))"
proof (cases "logs = []")
  case True
  with assms show ?thesis
    by (auto simp: analyzeLogs_empty buildGraph_def findClusters_def)
next
  case False
  with assms show ?thesis
    by (auto simp: analyzeLogs_nonempty split: sum.splits)
qed

text \<open>
  Claim C7. The clusters that \<open>analyzeLogs\<close> returns are the connected components of the
  adjacency that have at least \<open>minClusterSize\<close> members: every cluster lists the members of
  one component, without repetition; a node whose component is large enough is in exactly
  one cluster, which is its component; a node whose component is smaller is in no cluster;
  and two clusters share no node.
\<close>

theorem clusters_are_components:
  assumes "analyzeLogs pf logs st = Inr res"
  shows "(\<forall>c \<in> set (clusters res).
            (\<exists>n \<in> LogEntry.actor ` set logs \<union> LogEntry.target ` set logs.
                set (members c) = componentOf (adjacencyOf st logs) n)
            \<and> distinct (members c) \<and> minClusterSize st \<le> int (length (members c)))
       \<and> (\<forall>n \<in> LogEntry.actor ` set logs \<union> LogEntry.target ` set logs.
            (minClusterSize st \<le> int (card (componentOf (adjacencyOf st logs) n))
               \<longrightarrow> (\<exists>!i. i < length (clusters res) \<and> n \<in> set (members (clusters res ! i)))
                   \<and> (\<exists>c \<in> set (clusters res). set (members c) = componentOf (adjacencyOf st logs) n))
            \<and> (int (card (componentOf (adjacencyOf st logs) n)) < minClusterSize st
               \<longrightarrow> (\<forall>c \<in> set (clusters res). n \<notin> set (members c))))
       \<and> (\<forall>i j. i < length (clusters res) \<and> j < length (clusters res) \<and> i \<noteq> j
              \<longrightarrow> set (members (clusters res ! i)) \<inter> set (members (clusters res ! j)) = {})"
proof -
  define graph where "graph = adjacencyOf st logs"
  define N where "N = LogEntry.actor ` set logs \<union> LogEntry.target ` set logs"
  define cs where "cs = clusters res"
  have sym: "sym (adjacent graph)"
    unfolding graph_def by (rule sym_adjacencyOf)
  have cs: "cs = findClusters graph st (nodes (buildGraph st logs))"
    unfolding cs_def graph_def by (rule clusters_analyzeLogs [OF assms])
  from findClusters_cover [OF sym, of st "nodes (buildGraph st logs)"] obtain visited cid
    where "clustersCover graph st (nodes (buildGraph st logs)) (visited, cs, cid)"
    unfolding cs by blast
  then have cl: "\<And>c. c \<in> set cs \<Longrightarrow> (\<exists>n \<in> N. set (members c) = componentOf graph n)
                          \<and> distinct (members c) \<and> minClusterSize st \<le> int (length (members c))"
    and big: "\<And>n. n \<in> N \<Longrightarrow> minClusterSize st \<le> int (card (componentOf graph n))
              \<Longrightarrow> \<exists>c \<in> set cs. set (members c) = componentOf graph n"
    and dist: "distinct (map (\<lambda>c. set (members c)) cs)"
    unfolding clustersCover_def N_def set_nodes_buildGraph by auto
  have whole: "set (members c) = componentOf graph n" if "c \<in> set cs" and "n \<in> set (members c)" for c n
  proof -
    from cl [OF that(1)] obtain m where m: "set (members c) = componentOf graph m" by blast
    with that(2) have "n \<in> componentOf graph m" by simp
    from componentOf_eq [OF sym this] m show ?thesis by simp
  qed
  have same: "i = j" if "i < length cs" and "j < length cs"
    and "set (members (cs ! i)) = set (members (cs ! j))" for i j
  proof (rule ccontr)
    assume "i \<noteq> j"
    moreover from dist have "\<forall>i < length cs. \<forall>j < length cs. i \<noteq> j
        \<longrightarrow> map (\<lambda>c. set (members c)) cs ! i \<noteq> map (\<lambda>c. set (members c)) cs ! j"
      by (simp add: distinct_conv_nth)
    ultimately have "map (\<lambda>c. set (members c)) cs ! i \<noteq> map (\<lambda>c. set (members c)) cs ! j"
      using that(1,2) by blast
    with that show False by simp
  qed
  have part1: "\<forall>c \<in> set cs. (\<exists>n \<in> N. set (members c) = componentOf graph n)
            \<and> distinct (members c) \<and> minClusterSize st \<le> int (length (members c))"
    using cl by blast
  have once: "\<exists>!i. i < length cs \<and> n \<in> set (members (cs ! i))"
    if n: "n \<in> N" and large: "minClusterSize st \<le> int (card (componentOf graph n))" for n
  proof -
    from big [OF n large] obtain c where c: "c \<in> set cs" and m: "set (members c) = componentOf graph n"
      by blast
    from c obtain i where i: "i < length cs" and ci: "cs ! i = c"
      by (auto simp: in_set_conv_nth)
    have "n \<in> set (members (cs ! i))"
      using ci m componentOf_refl by simp
    moreover have "j = i" if "j < length cs" and "n \<in> set (members (cs ! j))" for j
    proof -
      from that have "set (members (cs ! j)) = componentOf graph n"
        by (intro whole) auto
      with ci m have "set (members (cs ! j)) = set (members (cs ! i))" by simp
      from same [OF that(1) i this] show ?thesis .
    qed
    ultimately show ?thesis using i by blast
  qed
  have none: "n \<notin> set (members c)"
    if small: "int (card (componentOf graph n)) < minClusterSize st" and c: "c \<in> set cs" for n c
  proof
    assume "n \<in> set (members c)"
    from whole [OF c this] have "card (componentOf graph n) = card (set (members c))" by simp
    also have "\<dots> = length (members c)"
      using cl [OF c] by (simp add: distinct_card)
    finally show False using cl [OF c] small by simp
  qed
  have disjoint: "set (members (cs ! i)) \<inter> set (members (cs ! j)) = {}"
    if i: "i < length cs" and j: "j < length cs" and ne: "i \<noteq> j" for i j
  proof (rule ccontr)
    assume "set (members (cs ! i)) \<inter> set (members (cs ! j)) \<noteq> {}"
    then obtain n where "n \<in> set (members (cs ! i))" and "n \<in> set (members (cs ! j))" by blast
    with i j have "set (members (cs ! i)) = componentOf graph n"
      and "set (members (cs ! j)) = componentOf graph n"
      by (auto intro!: whole)
    then have "set (members (cs ! i)) = set (members (cs ! j))" by simp
    from same [OF i j this] ne show False by simp
  qed
  have part2: "\<forall>n \<in> N.
            (minClusterSize st \<le> int (card (componentOf graph n))
               \<longrightarrow> (\<exists>!i. i < length cs \<and> n \<in> set (members (cs ! i)))
                   \<and> (\<exists>c \<in> set cs. set (members c) = componentOf graph n))
            \<and> (int (card (componentOf graph n)) < minClusterSize st
               \<longrightarrow> (\<forall>c \<in> set cs. n \<notin> set (members c)))"
    using once big none by blast
  have part3: "\<forall>i j. i < length cs \<and> j < length cs \<and> i \<noteq> j
              \<longrightarrow> set (members (cs ! i)) \<inter> set (members (cs ! j)) = {}"
    using disjoint by blast
  from part1 part2 part3 show ?thesis
    unfolding graph_def N_def cs_def by blast
qed

theorem clusters_are_components_witness:
  "map members (clusters sharedTargetResult) = [[''A'', ''T'', ''B'']]
   \<and> (\<exists>n \<in> LogEntry.actor ` set sharedTarget \<union> LogEntry.target ` set sharedTarget.
         componentOf (adjacencyOf sampleSettings sharedTarget) n = {''A'', ''T'', ''B''})
   \<and> minClusterSize sampleSettings \<le> 3"
proof -
  have c: "\<lparr>clusterId = 0, members = [''A'', ''T'', ''B''], density = 2 / 3, conductance = 0,
            externalEdges = 0\<rparr> \<in> set (clusters sharedTargetResult)"
    by (simp add: sharedTargetResult_def)
  from clusters_are_components [OF sharedTarget_result] c
  have "(\<exists>n \<in> LogEntry.actor ` set sharedTarget \<union> LogEntry.target ` set sharedTarget.
           set (members \<lparr>clusterId = 0, members = [''A'', ''T'', ''B''], density = 2 / 3,
                         conductance = 0, externalEdges = 0\<rparr>)
           = componentOf (adjacencyOf sampleSettings sharedTarget) n)
        \<and> minClusterSize sampleSettings
            \<le> int (length (members \<lparr>clusterId = 0, members = [''A'', ''T'', ''B''], density = 2 / 3,
                                    conductance = 0, externalEdges = 0\<rparr>))"
    by blast
  then show ?thesis
    by (auto simp: sharedTargetResult_def)
qed

section \<open>Actors without actions\<close>

lemma entries_modify:
  assumes "\<forall>x \<in> set table. Q (fst x) (snd x)" and "\<And>s. Q j s \<Longrightarrow> Q j (f s)"
  shows "\<forall>x \<in> set (modify j f table). Q (fst x) (snd x)"
proof
  fix x
  assume "x \<in> set (modify j f table)"
  then obtain s0 where s0: "(fst x, s0) \<in> set table" and s: "snd x = (if fst x = j then f s0 else s0)"
    by (auto simp: set_modify split: if_splits)
  from assms(1) s0 have "Q (fst x) s0" by auto
  with assms(2) s show "Q (fst x) (snd x)" by auto
qed

lemma entryOf_initStats:
  "\<forall>x \<in> set (initStats g graph). entryOf A M (fst x) (snd x)"
  by (auto simp: initStats_def entryOf_def)

lemma entryOf_countStep:
  assumes "\<forall>x \<in> set table. entryOf A M (fst x) (snd x)" and "LogEntry.actor e \<in> A"
  shows "\<forall>x \<in> set (countStep parse st e table). entryOf A M (fst x) (snd x)"
  unfolding countStep_def
proof (rule entries_modify [where Q = "entryOf A M"])
  show "\<forall>x \<in> set table. entryOf A M (fst x) (snd x)" by fact
next
  fix s
  assume "entryOf A M (LogEntry.actor e) s"
  with assms(2) show "entryOf A M (LogEntry.actor e)
          (s\<lparr>totalActions := Suc (totalActions s),
              uniqueTargets := setAdd (LogEntry.target e) (uniqueTargets s),
              ActorStats.churnActions :=
                (if LogEntry.action e \<in> set (AnalysisSettings.churnActions st)
                 then Suc (ActorStats.churnActions s) else ActorStats.churnActions s),
              firstSeenMs :=
                (case parse (timestamp e) of
                   None \<Rightarrow> firstSeenMs s
                 | Some ts \<Rightarrow> Some (case firstSeenMs s of None \<Rightarrow> ts | Some f \<Rightarrow> min f ts))\<rparr>)"
    by (simp add: entryOf_def)
qed

lemma entryOf_fold_countStep:
  assumes "\<forall>e \<in> set logs. LogEntry.actor e \<in> A"
    and "\<forall>x \<in> set table. entryOf A M (fst x) (snd x)"
  shows "\<forall>x \<in> set (fold (countStep parse st) logs table). entryOf A M (fst x) (snd x)"
  using assms
proof (induction logs arbitrary: table)
  case Nil
  then show ?case by simp
next
  case (Cons e logs)
  from Cons.prems(1) have e: "LogEntry.actor e \<in> A" and rest: "\<forall>e \<in> set logs. LogEntry.actor e \<in> A"
    by simp_all
  from Cons.prems(2) e have "\<forall>x \<in> set (countStep parse st e table). entryOf A M (fst x) (snd x)"
    by (rule entryOf_countStep)
  with rest have "\<forall>x \<in> set (fold (countStep parse st) logs (countStep parse st e table)).
      entryOf A M (fst x) (snd x)"
    by (rule Cons.IH)
  then show ?case by simp
qed

lemma entryOf_members:
  assumes "set ms \<subseteq> M"
    and "\<forall>x \<in> set table. entryOf A M (fst x) (snd x)"
  shows "\<forall>x \<in> set (fold (\<lambda>member. modify member (\<lambda>s. s\<lparr>clusterSize := n\<rparr>)) ms table).
           entryOf A M (fst x) (snd x)"
  using assms
proof (induction ms arbitrary: table)
  case Nil
  then show ?case by simp
next
  case (Cons m ms)
  from Cons.prems(1) have m: "m \<in> M" and rest: "set ms \<subseteq> M" by simp_all
  have "\<forall>x \<in> set (modify m (\<lambda>s. s\<lparr>clusterSize := n\<rparr>) table). entryOf A M (fst x) (snd x)"
  proof (rule entries_modify [where Q = "entryOf A M"])
    show "\<forall>x \<in> set table. entryOf A M (fst x) (snd x)" by fact
    show "entryOf A M m (s\<lparr>clusterSize := n\<rparr>)" if "entryOf A M m s" for s
      using that m by (simp add: entryOf_def)
  qed
  with rest have "\<forall>x \<in> set (fold (\<lambda>member. modify member (\<lambda>s. s\<lparr>clusterSize := n\<rparr>)) ms
                         (modify m (\<lambda>s. s\<lparr>clusterSize := n\<rparr>) table)). entryOf A M (fst x) (snd x)"
    by (rule Cons.IH)
  then show ?case by simp
qed

lemma entryOf_assignClusterSizes:
  assumes "\<forall>c \<in> set cs. set (members c) \<subseteq> M"
    and "\<forall>x \<in> set table. entryOf A M (fst x) (snd x)"
  shows "\<forall>x \<in> set (assignClusterSizes cs table). entryOf A M (fst x) (snd x)"
  using assms unfolding assignClusterSizes_def
proof (induction cs arbitrary: table)
  case Nil
  then show ?case by simp
next
  case (Cons c cs)
  define table1 where
    "table1 = fold (\<lambda>member. modify member (\<lambda>s. s\<lparr>clusterSize := length (members c)\<rparr>)) (members c) table"
  from Cons.prems(1) have c: "set (members c) \<subseteq> M" and rest: "\<forall>c \<in> set cs. set (members c) \<subseteq> M"
    by simp_all
  from c Cons.prems(2) have "\<forall>x \<in> set table1. entryOf A M (fst x) (snd x)"
    unfolding table1_def by (rule entryOf_members)
  with rest
  have "\<forall>x \<in> set (fold (\<lambda>cluster. fold (\<lambda>member. modify member (\<lambda>s. s\<lparr>clusterSize := length (members cluster)\<rparr>))
                                          (members cluster)) cs table1). entryOf A M (fst x) (snd x)"
    by (rule Cons.IH)
  then show ?case by (simp add: table1_def)
qed

lemma entryOf_mutual:
  assumes "\<forall>x \<in> set table. entryOf A M (fst x) (snd x)"
  shows "\<forall>x \<in> set (fold (\<lambda>a. modify a (\<lambda>s. s\<lparr>mutualPositive := h a\<rparr>)) ns table).
           entryOf A M (fst x) (snd x)"
  using assms
proof (induction ns arbitrary: table)
  case Nil
  then show ?case by simp
next
  case (Cons a ns)
  have "\<forall>x \<in> set (modify a (\<lambda>s. s\<lparr>mutualPositive := h a\<rparr>) table). entryOf A M (fst x) (snd x)"
  proof (rule entries_modify [where Q = "entryOf A M"])
    show "\<forall>x \<in> set table. entryOf A M (fst x) (snd x)" by fact
    show "entryOf A M a (s\<lparr>mutualPositive := h a\<rparr>)" if "entryOf A M a s" for s
      using that by (simp add: entryOf_def)
  qed
  then have "\<forall>x \<in> set (fold (\<lambda>a. modify a (\<lambda>s. s\<lparr>mutualPositive := h a\<rparr>)) ns
                         (modify a (\<lambda>s. s\<lparr>mutualPositive := h a\<rparr>) table)). entryOf A M (fst x) (snd x)"
    by (rule Cons.IH)
  then show ?case by simp
qed

lemma entryOf_reciprocity:
  assumes "\<forall>x \<in> set table. entryOf A M (fst x) (snd x)"
  shows "\<forall>x \<in> set (reciprocity g table). entryOf A M (fst x) (snd x)"
  unfolding reciprocity_def using assms by (rule entryOf_mutual)

lemma entryOf_assignBursts:
  assumes "\<forall>x \<in> set table. entryOf A M (fst x) (snd x)"
  shows "\<forall>x \<in> set (assignBursts wb table). entryOf A M (fst x) (snd x)"
  using assms by (auto simp: assignBursts_def entryOf_def)

lemma entryOf_collectStats:
  "\<forall>x \<in> set (collectStats pf st logs g graph cs tb).
     entryOf (LogEntry.actor ` set logs) (\<Union>c \<in> set cs. set (members c)) (fst x) (snd x)"
proof -
  let ?A = "LogEntry.actor ` set logs" and ?M = "\<Union>c \<in> set cs. set (members c)"
  have A: "\<forall>e \<in> set logs. LogEntry.actor e \<in> ?A" by simp
  have M: "\<forall>c \<in> set cs. set (members c) \<subseteq> ?M" by auto
  from A entryOf_initStats
  have "\<forall>x \<in> set (fold (countStep (dateParse pf) st) logs (initStats g graph)).
          entryOf ?A ?M (fst x) (snd x)"
    by (rule entryOf_fold_countStep)
  with M
  have "\<forall>x \<in> set (assignClusterSizes cs (fold (countStep (dateParse pf) st) logs (initStats g graph))).
          entryOf ?A ?M (fst x) (snd x)"
    by (rule entryOf_assignClusterSizes)
  then have "\<forall>x \<in> set (reciprocity g (assignClusterSizes cs
                  (fold (countStep (dateParse pf) st) logs (initStats g graph)))).
          entryOf ?A ?M (fst x) (snd x)"
    by (rule entryOf_reciprocity)
  then show ?thesis
    unfolding collectStats_def by (rule entryOf_assignBursts)
qed

lemma scoreActor_inert:
  "ActorScorecard.actor (scoreActor pf startMs profiles s) = ActorStats.actor s"
  "totalActions s = 0 \<Longrightarrow> lowDiversityScore (scoreActor pf startMs profiles s) = 0"
  "clusterSize s = 0 \<Longrightarrow> clusterIsolationScore (scoreActor pf startMs profiles s) = 0"
  by (simp_all add: scoreActor_def Let_def)

text \<open>
  Claim C6, as amended. An actor that performs no event of the log (total action count 0)
  has \<open>lowDiversityScore = 0\<close>, and an actor that is a member of no returned cluster (cluster
  size 0) has \<open>clusterIsolationScore = 0\<close>; both by the guards of the code.
\<close>

theorem inactive_actor_scores:
  assumes "analyzeLogs pf logs st = Inr res" and "sc \<in> set (scorecards res)"
  shows "(ActorScorecard.actor sc \<notin> LogEntry.actor ` set logs \<longrightarrow> lowDiversityScore sc = 0)
       \<and> ((\<forall>c \<in> set (clusters res). ActorScorecard.actor sc \<notin> set (members c))
            \<longrightarrow> clusterIsolationScore sc = 0)"
proof (cases "logs = []")
  case True
  with assms show ?thesis by (auto simp: analyzeLogs_empty)
next
  case False
  define cs where "cs = findClusters (adjacencyOf st logs) st (nodes (buildGraph st logs))"
  from assms False obtain tb k s
    where cl: "clusters res = cs"
      and ks: "(k, s) \<in> set (collectStats pf st logs (buildGraph st logs) (adjacencyOf st logs) cs tb)"
      and sc: "sc = scoreActor pf (datasetStartMs pf logs) (fold profileStep logs []) s"
    unfolding cs_def by (auto simp: analyzeLogs_nonempty split: sum.splits)
  from entryOf_collectStats ks
  have "entryOf (LogEntry.actor ` set logs) (\<Union>c \<in> set cs. set (members c)) k s"
    by fastforce
  then have a: "ActorStats.actor s = k"
    and t: "k \<notin> LogEntry.actor ` set logs \<Longrightarrow> totalActions s = 0"
    and m: "k \<notin> (\<Union>c \<in> set cs. set (members c)) \<Longrightarrow> clusterSize s = 0"
    by (simp_all add: entryOf_def)
  have n: "ActorScorecard.actor sc = k"
    by (simp add: sc scoreActor_inert a)
  show ?thesis
    unfolding n cl using t m by (auto simp: sc scoreActor_inert)
qed

lemma unclustered_result:
  "analyzeLogs samplePlatform sharedTarget largeClusterSettings = Inr unclusteredResult"
  by code_simp

theorem inactive_actor_scores_witness:
  "unclusteredT \<in> set (scorecards unclusteredResult)
   \<and> ''T'' \<notin> LogEntry.actor ` set sharedTarget
   \<and> clusters unclusteredResult = []
   \<and> lowDiversityScore unclusteredT = 0 \<and> clusterIsolationScore unclusteredT = 0"
proof -
  have mem: "unclusteredT \<in> set (scorecards unclusteredResult)"
    by (simp add: unclusteredResult_def)
  have a: "ActorScorecard.actor unclusteredT \<notin> LogEntry.actor ` set sharedTarget"
    by (simp add: unclusteredT_def sharedTarget_def event_def)
  have c: "clusters unclusteredResult = []"
    by (simp add: unclusteredResult_def)
  from inactive_actor_scores [OF unclustered_result mem] a c
  have "lowDiversityScore unclusteredT = 0 \<and> clusterIsolationScore unclusteredT = 0"
    by simp
  with mem a c show ?thesis
    by (simp add: unclusteredT_def)
qed

text \<open>
  Claim C6, as stated, fails for the cluster isolation: \<open>T\<close> is only ever a target, so its
  total action count is 0, yet it is a member of the cluster of \<open>A\<close>, \<open>T\<close> and \<open>B\<close> with two
  neighbors, and its \<open>clusterIsolationScore\<close> is \<open>1 - 2/3\<close>.
\<close>

theorem target_only_member_is_scored:
  "analyzeLogs samplePlatform sharedTarget sampleSettings = Inr sharedTargetResult
   \<and> scoreT \<in> set (scorecards sharedTargetResult)
   \<and> ActorScorecard.actor scoreT = ''T''
   \<and> ''T'' \<notin> LogEntry.actor ` set sharedTarget
   \<and> lowDiversityScore scoreT = 0
   \<and> clusterIsolationScore scoreT = 1 / 3"
proof -
  have "''T'' \<notin> LogEntry.actor ` set sharedTarget"
    by (simp add: sharedTarget_def event_def)
  moreover have "scoreT \<in> set (scorecards sharedTargetResult)"
    by (simp add: sharedTargetResult_def)
  moreover have "ActorScorecard.actor scoreT = ''T''" "lowDiversityScore scoreT = 0"
    "clusterIsolationScore scoreT = 1 / 3"
    by (simp_all add: scoreT_def)
  ultimately show ?thesis
    using sharedTarget_result by simp
qed

section \<open>Metrics of a cluster\<close>

lemma clusterStep_made:
  assumes "\<forall>c \<in> set (fst (snd s)). \<exists>cid. c = mkCluster graph cid (members c)"
  shows "\<forall>c \<in> set (fst (snd (clusterStep graph st n s))). \<exists>cid. c = mkCluster graph cid (members c)"
proof -
  obtain visited cs cid where s: "s = (visited, cs, cid)" by (cases s)
  have new: "\<exists>cid'. mkCluster graph cid found = mkCluster graph cid' (members (mkCluster graph cid found))"
    for found
    by (rule exI [of _ cid]) (simp add: members_mkCluster)
  show ?thesis
    using assms new by (auto simp: clusterStep_def s split: prod.splits)
qed

lemma findClusters_made:
  "\<forall>c \<in> set (findClusters graph st ns). \<exists>cid. c = mkCluster graph cid (members c)"
proof -
  have "\<forall>c \<in> set (fst (snd (fold (clusterStep graph st) ns s))). \<exists>cid. c = mkCluster graph cid (members c)"
    if "\<forall>c \<in> set (fst (snd s)). \<exists>cid. c = mkCluster graph cid (members c)" for s
    using that
  proof (induction ns arbitrary: s)
    case Nil
    then show ?case by simp
  next
    case (Cons n ns)
    from clusterStep_made [OF Cons.prems]
    have "\<forall>c \<in> set (fst (snd (fold (clusterStep graph st) ns (clusterStep graph st n s)))).
            \<exists>cid. c = mkCluster graph cid (members c)"
      by (rule Cons.IH)
    then show ?case by simp
  qed
  from this [of "([], [], 0)"] show ?thesis
    by (simp add: findClusters_def)
qed

lemma externalEdgeCount_component:
  assumes "set found = componentOf graph n"
  shows "externalEdgeCount graph found = 0"
proof -
  have "filter (\<lambda>neigh. neigh \<notin> set found) (neighbors graph u) = []" if "u \<in> set found" for u
  proof -
    from that assms have "u \<in> componentOf graph n" by simp
    from componentOf_closed [OF this] assms show ?thesis
      by (auto simp: filter_empty_conv)
  qed
  then show ?thesis
    by (simp add: externalEdgeCount_def)
qed

text \<open>
  What holds of the metrics of every returned cluster: no edge leaves a cluster, so its
  conductance is 0, and its density is not negative.
\<close>

lemma cluster_metrics:
  assumes "analyzeLogs pf logs st = Inr res" and "c \<in> set (clusters res)"
  shows "externalEdges c = 0" and "conductance c = 0" and "0 \<le> density c"
proof -
  define graph where "graph = adjacencyOf st logs"
  have cs: "clusters res = findClusters graph st (nodes (buildGraph st logs))"
    unfolding graph_def by (rule clusters_analyzeLogs [OF assms(1)])
  from findClusters_made [of graph st "nodes (buildGraph st logs)"] assms(2) cs
  obtain cid where c: "c = mkCluster graph cid (members c)" by auto
  have sym: "sym (adjacent graph)"
    unfolding graph_def by (rule sym_adjacencyOf)
  from findClusters_cover [OF sym, of st "nodes (buildGraph st logs)"] assms(2) cs
  obtain n where "set (members c) = componentOf graph n"
    unfolding clustersCover_def by auto
  then have ext: "externalEdgeCount graph (members c) = 0"
    by (rule externalEdgeCount_component)
  have "externalEdges (mkCluster graph cid (members c)) = 0"
    "conductance (mkCluster graph cid (members c)) = 0"
    "0 \<le> density (mkCluster graph cid (members c))"
    using ext by (simp_all add: mkCluster_def Let_def internalEdges_def)
  with c show "externalEdges c = 0" and "conductance c = 0" and "0 \<le> density c"
    by simp_all
qed

section \<open>The score of an actor\<close>

lemma churner_result:
  "analyzeLogs samplePlatform churner sampleSettings = Inr churnerResult"
  by code_simp

lemma entries_modify_step:
  assumes "\<forall>x \<in> set table. P (fst x) (snd x)"
    and "\<And>s. P j s \<Longrightarrow> Q j (f s)"
    and "\<And>k s. k \<noteq> j \<Longrightarrow> P k s \<Longrightarrow> Q k s"
  shows "\<forall>x \<in> set (modify j f table). Q (fst x) (snd x)"
proof
  fix x
  assume "x \<in> set (modify j f table)"
  then obtain s0 where s0: "(fst x, s0) \<in> set table" and s: "snd x = (if fst x = j then f s0 else s0)"
    by (auto simp: set_modify split: if_splits)
  from assms(1) s0 have "P (fst x) s0" by auto
  with assms(2,3) s show "Q (fst x) (snd x)" by (cases "fst x = j") auto
qed

lemma countedOf_initStats:
  "\<forall>x \<in> set (initStats g graph). countedOf graph st [] (fst x) (snd x)"
  by (auto simp: initStats_def countedOf_def)

lemma countedOf_countStep:
  assumes "\<forall>x \<in> set table. countedOf graph st seen (fst x) (snd x)"
  shows "\<forall>x \<in> set (countStep parse st e table). countedOf graph st (seen @ [e]) (fst x) (snd x)"
  unfolding countStep_def
proof (rule entries_modify_step [where P = "countedOf graph st seen"])
  show "\<forall>x \<in> set table. countedOf graph st seen (fst x) (snd x)" by fact
next
  fix s
  assume "countedOf graph st seen (LogEntry.actor e) s"
  then show "countedOf graph st (seen @ [e]) (LogEntry.actor e)
          (s\<lparr>totalActions := Suc (totalActions s),
              uniqueTargets := setAdd (LogEntry.target e) (uniqueTargets s),
              ActorStats.churnActions :=
                (if LogEntry.action e \<in> set (AnalysisSettings.churnActions st)
                 then Suc (ActorStats.churnActions s) else ActorStats.churnActions s),
              firstSeenMs :=
                (case parse (timestamp e) of
                   None \<Rightarrow> firstSeenMs s
                 | Some ts \<Rightarrow> Some (case firstSeenMs s of None \<Rightarrow> ts | Some f \<Rightarrow> min f ts))\<rparr>)"
    by (auto simp: countedOf_def set_setAdd distinct_setAdd)
next
  fix k s
  assume "k \<noteq> LogEntry.actor e" and "countedOf graph st seen k s"
  then show "countedOf graph st (seen @ [e]) k s"
    by (auto simp: countedOf_def)
qed

lemma countedOf_fold_countStep:
  assumes "\<forall>x \<in> set table. countedOf graph st seen (fst x) (snd x)"
  shows "\<forall>x \<in> set (fold (countStep parse st) logs table). countedOf graph st (seen @ logs) (fst x) (snd x)"
  using assms
proof (induction logs arbitrary: table seen)
  case Nil
  then show ?case by simp
next
  case (Cons e logs)
  from Cons.prems have "\<forall>x \<in> set (countStep parse st e table). countedOf graph st (seen @ [e]) (fst x) (snd x)"
    by (rule countedOf_countStep)
  then have "\<forall>x \<in> set (fold (countStep parse st) logs (countStep parse st e table)).
      countedOf graph st ((seen @ [e]) @ logs) (fst x) (snd x)"
    by (rule Cons.IH)
  then show ?case by simp
qed

lemma entries_fold_modify:
  assumes "\<forall>x \<in> set table. Q (fst x) (snd x)" and "\<And>j s. Q j s \<Longrightarrow> Q j (f j s)"
  shows "\<forall>x \<in> set (fold (\<lambda>j. modify j (f j)) js table). Q (fst x) (snd x)"
  using assms(1)
proof (induction js arbitrary: table)
  case Nil
  then show ?case by simp
next
  case (Cons j js)
  have "\<forall>x \<in> set (modify j (f j) table). Q (fst x) (snd x)"
  proof (rule entries_modify [where Q = Q])
    show "\<forall>x \<in> set table. Q (fst x) (snd x)" by fact
    show "Q j (f j s)" if "Q j s" for s using that by (rule assms(2))
  qed
  then have "\<forall>x \<in> set (fold (\<lambda>j. modify j (f j)) js (modify j (f j) table)). Q (fst x) (snd x)"
    by (rule Cons.IH)
  then show ?case by simp
qed

lemma entries_assignClusterSizes:
  assumes "\<forall>x \<in> set table. Q (fst x) (snd x)" and "\<And>j s n. Q j s \<Longrightarrow> Q j (s\<lparr>clusterSize := n\<rparr>)"
  shows "\<forall>x \<in> set (assignClusterSizes cs table). Q (fst x) (snd x)"
  using assms(1) unfolding assignClusterSizes_def
proof (induction cs arbitrary: table)
  case Nil
  then show ?case by simp
next
  case (Cons c cs)
  have "\<forall>x \<in> set (fold (\<lambda>member. modify member (\<lambda>s. s\<lparr>clusterSize := length (members c)\<rparr>))
                         (members c) table). Q (fst x) (snd x)"
  proof (rule entries_fold_modify [where Q = Q and f = "\<lambda>j s. s\<lparr>clusterSize := length (members c)\<rparr>"])
    show "\<forall>x \<in> set table. Q (fst x) (snd x)" by fact
    show "Q j (s\<lparr>clusterSize := length (members c)\<rparr>)" if "Q j s" for j s
      using that by (rule assms(2))
  qed
  then have "\<forall>x \<in> set (fold (\<lambda>cluster. fold (\<lambda>member. modify member (\<lambda>s. s\<lparr>clusterSize := length (members cluster)\<rparr>))
                                          (members cluster)) cs
                 (fold (\<lambda>member. modify member (\<lambda>s. s\<lparr>clusterSize := length (members c)\<rparr>))
                         (members c) table)). Q (fst x) (snd x)"
    by (rule Cons.IH)
  then show ?case by simp
qed

lemma entries_collectStats:
  assumes "\<forall>x \<in> set (fold (countStep (dateParse pf) st) logs (initStats g graph)). Q (fst x) (snd x)"
    and c: "\<And>j s n. Q j s \<Longrightarrow> Q j (s\<lparr>clusterSize := n\<rparr>)"
    and m: "\<And>j s n. Q j s \<Longrightarrow> Q j (s\<lparr>mutualPositive := n\<rparr>)"
    and b: "\<And>j s n. Q j s \<Longrightarrow> Q j (s\<lparr>burstActions := n\<rparr>)"
  shows "\<forall>x \<in> set (collectStats pf st logs g graph cs tb). Q (fst x) (snd x)"
proof -
  define t1 where "t1 = assignClusterSizes cs (fold (countStep (dateParse pf) st) logs (initStats g graph))"
  have 1: "\<forall>x \<in> set t1. Q (fst x) (snd x)"
    unfolding t1_def using assms(1) c by (rule entries_assignClusterSizes)
  have 2: "\<forall>x \<in> set (reciprocity g t1). Q (fst x) (snd x)"
    unfolding reciprocity_def
  proof (rule entries_fold_modify [where Q = Q])
    show "\<forall>x \<in> set t1. Q (fst x) (snd x)" by fact
    show "Q j (s\<lparr>mutualPositive :=
                   length (filter (\<lambda>t. j \<in> set (getOr [] (GraphState.positiveOut g) t))
                                  (getOr [] (GraphState.positiveOut g) j))\<rparr>)" if "Q j s" for j s
      using that by (rule m)
  qed
  have "\<forall>x \<in> set (assignBursts wb (reciprocity g t1)). Q (fst x) (snd x)" for wb
    using 2 b by (auto simp: assignBursts_def)
  then show ?thesis
    unfolding collectStats_def t1_def .
qed

lemma countedOf_statsOf:
  "\<forall>x \<in> set (statsOf pf st logs). countedOf (adjacencyOf st logs) st logs (fst x) (snd x)"
proof (cases "binLogs (dateParse pf) (binSizeMs st) logs []")
  case (Inl e)
  then show ?thesis by (simp add: statsOf_def)
next
  case (Inr tb)
  have "\<forall>x \<in> set (fold (countStep (dateParse pf) st) logs
                      (initStats (buildGraph st logs) (adjacencyOf st logs))).
          countedOf (adjacencyOf st logs) st ([] @ logs) (fst x) (snd x)"
    by (rule countedOf_fold_countStep [OF countedOf_initStats])
  then have "\<forall>x \<in> set (collectStats pf st logs (buildGraph st logs) (adjacencyOf st logs)
            (findClusters (adjacencyOf st logs) st (nodes (buildGraph st logs))) tb).
          countedOf (adjacencyOf st logs) st logs (fst x) (snd x)"
    by (intro entries_collectStats) (simp_all add: countedOf_def)
  with Inr show ?thesis by (simp add: statsOf_def)
qed

lemma scorecards_of_run:
  assumes "analyzeLogs pf logs st = Inr res" and "logs \<noteq> []"
  shows "scorecards res =
           map (\<lambda>(a, s). scoreActor pf (datasetStartMs pf logs) (fold profileStep logs []) s)
               (statsOf pf st logs)"
  using assms by (auto simp: analyzeLogs_nonempty statsOf_def split: sum.splits)


lemma scoreActor_fields:
  "ActorScorecard.actor (scoreActor pf startMs profiles s) = ActorStats.actor s"
  "coordinationScore (scoreActor pf startMs profiles s) =
     (if 0 < totalActions s then min (real (burstActions s) / real (totalActions s)) 1 else 0)"
  "churnScore (scoreActor pf startMs profiles s) = ActorStats.churnActions s"
  "clusterIsolationScore (scoreActor pf startMs profiles s) =
     (if 0 < clusterSize s then 1 - real (connections s) / real (clusterSize s) else 0)"
  "lowDiversityScore (scoreActor pf startMs profiles s) =
     (if 0 < totalActions s then 1 - real (length (uniqueTargets s)) / real (totalActions s) else 0)"
  "profileAnomalyScore (scoreActor pf startMs profiles s) = profileAnomaly pf (ActorStats.actor s)"
  "newAccountScore (scoreActor pf startMs profiles s) = 0 \<or> newAccountScore (scoreActor pf startMs profiles s) = 1"
  by (simp_all add: scoreActor_def Let_def split: option.splits)

text \<open>
  Claim C4. Every scorecard of a run belongs to an entry of the statistics table, the entry
  of its actor, which has counted the events of that actor in the log: all of them, those
  with a churn action (the churn count) and their distinct targets. The coordination, churn,
  cluster isolation and low diversity sub-scores are computed from that entry, the profile
  anomaly is the one of the actor, and the new account score is 0 or 1. The score is the
  sum of the six sub-scores with the weights 0.30, 0.20, 0.15, 0.10, 0.10 and 0.15, the
  churn count entering as \<open>min (count / 10) 1\<close>. The weights add up to 1; the sum is 0 when
  every sub-score is 0, it is 1 when every sub-score is 1 (the churn sub-score is 1 from a
  churn count of 10 on), and it lies between 0 and 1 whenever every sub-score does.
\<close>

theorem sybilScore_weighted_sum:
  assumes "analyzeLogs pf logs st = Inr res" and "sc \<in> set (scorecards res)"
  shows "(\<exists>s. (ActorScorecard.actor sc, s) \<in> set (statsOf pf st logs)
            \<and> totalActions s = length (filter (\<lambda>l. LogEntry.actor l = ActorScorecard.actor sc) logs)
            \<and> ActorStats.churnActions s =
                length (filter (\<lambda>l. LogEntry.actor l = ActorScorecard.actor sc
                                   \<and> LogEntry.action l \<in> set (AnalysisSettings.churnActions st)) logs)
            \<and> length (uniqueTargets s) =
                card (LogEntry.target ` {l \<in> set logs. LogEntry.actor l = ActorScorecard.actor sc})
            \<and> connections s = length (neighbors (adjacencyOf st logs) (ActorScorecard.actor sc))
            \<and> coordinationScore sc =
                (if 0 < totalActions s then min (real (burstActions s) / real (totalActions s)) 1 else 0)
            \<and> churnScore sc = ActorStats.churnActions s
            \<and> clusterIsolationScore sc =
                (if 0 < clusterSize s then 1 - real (connections s) / real (clusterSize s) else 0)
            \<and> lowDiversityScore sc =
                (if 0 < totalActions s then 1 - real (length (uniqueTargets s)) / real (totalActions s)
                 else 0))
       \<and> profileAnomalyScore sc = profileAnomaly pf (ActorScorecard.actor sc)
       \<and> (newAccountScore sc = 0 \<or> newAccountScore sc = 1)
       \<and> sybilScore sc =
           0.30 * coordinationScore sc + 0.20 * min (real (churnScore sc) / 10) 1
           + 0.15 * clusterIsolationScore sc + 0.10 * newAccountScore sc
           + 0.10 * lowDiversityScore sc + 0.15 * profileAnomalyScore sc
       \<and> sybilScore sc =
           sybilComposite (coordinationScore sc) (churnScore sc) (clusterIsolationScore sc)
             (newAccountScore sc) (lowDiversityScore sc) (profileAnomalyScore sc)
       \<and> 0.30 + 0.20 + 0.15 + 0.10 + 0.10 + 0.15 = (1::real)
       \<and> sybilComposite 0 0 0 0 0 0 = 0
       \<and> (10 \<le> n \<longrightarrow> sybilComposite 1 n 1 1 1 1 = 1)
       \<and> (0 \<le> c \<and> c \<le> 1 \<and> 0 \<le> i \<and> i \<le> 1 \<and> 0 \<le> a \<and> a \<le> 1 \<and> 0 \<le> d \<and> d \<le> 1 \<and> 0 \<le> p \<and> p \<le> 1
            \<longrightarrow> 0 \<le> sybilComposite c n i a d p \<and> sybilComposite c n i a d p \<le> 1)"
proof -
  from assms have ne: "logs \<noteq> []" by (auto simp: analyzeLogs_empty)
  define startMs where "startMs = datasetStartMs pf logs"
  define profiles where "profiles = fold profileStep logs []"
  from scorecards_of_run [OF assms(1) ne] assms(2) obtain k s
    where mem: "(k, s) \<in> set (statsOf pf st logs)" and sc: "sc = scoreActor pf startMs profiles s"
    unfolding startMs_def profiles_def by auto
  from countedOf_statsOf mem have counted: "countedOf (adjacencyOf st logs) st logs k s"
    by fastforce
  then have k: "ActorStats.actor s = k" by (simp add: countedOf_def)
  have actor: "ActorScorecard.actor sc = k"
    unfolding sc by (simp add: scoreActor_fields k)
  from counted have d: "distinct (uniqueTargets s)"
    and ts: "set (uniqueTargets s) = LogEntry.target ` {l \<in> set logs. LogEntry.actor l = k}"
    by (simp_all add: countedOf_def)
  from distinct_card [OF d] have targets: "length (uniqueTargets s) =
      card (LogEntry.target ` {l \<in> set logs. LogEntry.actor l = k})"
    by (simp only: ts)
  have stats: "\<exists>s. (ActorScorecard.actor sc, s) \<in> set (statsOf pf st logs)
            \<and> totalActions s = length (filter (\<lambda>l. LogEntry.actor l = ActorScorecard.actor sc) logs)
            \<and> ActorStats.churnActions s =
                length (filter (\<lambda>l. LogEntry.actor l = ActorScorecard.actor sc
                                   \<and> LogEntry.action l \<in> set (AnalysisSettings.churnActions st)) logs)
            \<and> length (uniqueTargets s) =
                card (LogEntry.target ` {l \<in> set logs. LogEntry.actor l = ActorScorecard.actor sc})
            \<and> connections s = length (neighbors (adjacencyOf st logs) (ActorScorecard.actor sc))
            \<and> coordinationScore sc =
                (if 0 < totalActions s then min (real (burstActions s) / real (totalActions s)) 1 else 0)
            \<and> churnScore sc = ActorStats.churnActions s
            \<and> clusterIsolationScore sc =
                (if 0 < clusterSize s then 1 - real (connections s) / real (clusterSize s) else 0)
            \<and> lowDiversityScore sc =
                (if 0 < totalActions s then 1 - real (length (uniqueTargets s)) / real (totalActions s)
                 else 0)"
  proof (intro exI [of _ s] conjI)
    show "(ActorScorecard.actor sc, s) \<in> set (statsOf pf st logs)"
      using mem actor by simp
    show "totalActions s = length (filter (\<lambda>l. LogEntry.actor l = ActorScorecard.actor sc) logs)"
      using counted actor by (simp add: countedOf_def)
    show "ActorStats.churnActions s =
                length (filter (\<lambda>l. LogEntry.actor l = ActorScorecard.actor sc
                                   \<and> LogEntry.action l \<in> set (AnalysisSettings.churnActions st)) logs)"
      using counted actor by (simp add: countedOf_def)
    show "length (uniqueTargets s) =
                card (LogEntry.target ` {l \<in> set logs. LogEntry.actor l = ActorScorecard.actor sc})"
      using targets actor by simp
    show "connections s = length (neighbors (adjacencyOf st logs) (ActorScorecard.actor sc))"
      using counted actor by (simp add: countedOf_def)
  qed (simp_all only: sc scoreActor_fields)
  have anomaly: "profileAnomalyScore sc = profileAnomaly pf (ActorScorecard.actor sc)"
    unfolding sc by (simp only: scoreActor_fields)
  have new: "newAccountScore sc = 0 \<or> newAccountScore sc = 1"
    unfolding sc by (rule scoreActor_fields)
  have composite: "sybilScore sc =
           sybilComposite (coordinationScore sc) (churnScore sc) (clusterIsolationScore sc)
             (newAccountScore sc) (lowDiversityScore sc) (profileAnomalyScore sc)"
    unfolding sc by (simp only: sybilScore_scoreActor)
  then have weighted: "sybilScore sc =
           0.30 * coordinationScore sc + 0.20 * min (real (churnScore sc) / 10) 1
           + 0.15 * clusterIsolationScore sc + 0.10 * newAccountScore sc
           + 0.10 * lowDiversityScore sc + 0.15 * profileAnomalyScore sc"
    by (simp only: sybilComposite_def)
  have zero: "sybilComposite 0 0 0 0 0 0 = 0"
    by (simp add: sybilComposite_def)
  have one: "10 \<le> n \<longrightarrow> sybilComposite 1 n 1 1 1 1 = 1"
    by (simp add: sybilComposite_def min_def)
  have weights: "0.30 + 0.20 + 0.15 + 0.10 + 0.10 + 0.15 = (1::real)"
    by simp
  have bounds: "0 \<le> c \<and> c \<le> 1 \<and> 0 \<le> i \<and> i \<le> 1 \<and> 0 \<le> a \<and> a \<le> 1 \<and> 0 \<le> d \<and> d \<le> 1 \<and> 0 \<le> p \<and> p \<le> 1
            \<longrightarrow> 0 \<le> sybilComposite c n i a d p \<and> sybilComposite c n i a d p \<le> 1"
    using sybilComposite_bounds [of c i a d p n] by simp
  from stats anomaly new weighted composite weights zero one bounds show ?thesis
    by (intro conjI)
qed



theorem sybilScore_weighted_sum_witness:
  "analyzeLogs samplePlatform churner sampleSettings = Inr churnerResult
   \<and> scoreChurner \<in> set (scorecards churnerResult)
   \<and> length (filter (\<lambda>l. LogEntry.actor l = ''A''
                          \<and> LogEntry.action l \<in> set (AnalysisSettings.churnActions sampleSettings))
                   churner) = 11
   \<and> churnScore scoreChurner = 11
   \<and> sybilScore scoreChurner = 0.20 * min (11 / 10) 1 + 0.10 * (8 / 11)
   \<and> sybilScore scoreChurner = 3 / 11
   \<and> sybilComposite 0 0 0 0 0 0 = 0
   \<and> sybilComposite 1 12 1 1 1 1 = 1
   \<and> 0 \<le> sybilComposite (1 / 2) 12 (1 / 2) 1 0 (1 / 4)
   \<and> sybilComposite (1 / 2) 12 (1 / 2) 1 0 (1 / 4) \<le> 1"
proof -
  have mem: "scoreChurner \<in> set (scorecards churnerResult)"
    by (simp add: churnerResult_def)
  have count: "length (filter (\<lambda>l. LogEntry.actor l = ''A''
                          \<and> LogEntry.action l \<in> set (AnalysisSettings.churnActions sampleSettings))
                   churner) = 11"
    by (simp add: churner_def event_def sampleSettings_def)
  have actor: "ActorScorecard.actor scoreChurner = ''A''"
    by (simp add: scoreChurner_def)
  note t = sybilScore_weighted_sum [OF churner_result mem, of 12 "1 / 2" "1 / 2" 1 0 "1 / 4"]
  note rest = t [THEN conjunct2, THEN conjunct2, THEN conjunct2]
  obtain s :: ActorStats where "ActorStats.churnActions s =
                length (filter (\<lambda>l. LogEntry.actor l = ActorScorecard.actor scoreChurner
                                   \<and> LogEntry.action l \<in> set (AnalysisSettings.churnActions sampleSettings)) churner)"
    and "churnScore scoreChurner = ActorStats.churnActions s"
    using t [THEN conjunct1] by blast
  then have churn: "churnScore scoreChurner = 11"
    by (simp only: actor count)
  from rest [THEN conjunct1]
  have weighted: "sybilScore scoreChurner = 0.20 * min (11 / 10) 1 + 0.10 * (8 / 11)"
    by (simp add: scoreChurner_def)
  have total: "sybilScore scoreChurner = 3 / 11"
    by (simp add: scoreChurner_def)
  note tail = rest [THEN conjunct2, THEN conjunct2, THEN conjunct2]
  from tail [THEN conjunct1] have zero: "sybilComposite 0 0 0 0 0 0 = 0" .
  from tail [THEN conjunct2, THEN conjunct1] have one: "sybilComposite 1 12 1 1 1 1 = 1"
    by simp
  from tail [THEN conjunct2, THEN conjunct2]
  have bounds: "0 \<le> sybilComposite (1 / 2) 12 (1 / 2) 1 0 (1 / 4)"
    "sybilComposite (1 / 2) 12 (1 / 2) 1 0 (1 / 4) \<le> 1"
    by simp_all
  from churner_result mem count churn weighted total zero one bounds show ?thesis
    by (intro conjI)
qed

end
